theory Spec2Isabelle
  imports Main "HOL-Library.Stream"
begin

section \<open>Data model (sudoku.c, lines 21--40)\<close>

text \<open>
  \<^verbatim>\<open>typedef enum { V_None = 0, V_1, ..., V_9 } CellValue;\<close>
  A C enumeration is an integer type; the loop of \<^verbatim>\<open>count_solutions\<close> increments a
  \<^verbatim>\<open>CellValue\<close> past \<^verbatim>\<open>V_9\<close>. Cell values are therefore natural numbers, and the
  enumerators are names for \<open>0 .. 9\<close>.
\<close>

type_synonym CellValue = nat

abbreviation (input) V_None :: CellValue where "V_None \<equiv> 0"
abbreviation (input) V_1 :: CellValue where "V_1 \<equiv> 1"
abbreviation (input) V_9 :: CellValue where "V_9 \<equiv> 9"

datatype CellType = FIXED | DYNAMIC

text \<open>The fields \<^verbatim>\<open>value\<close> and \<^verbatim>\<open>type\<close> of the C struct \<^verbatim>\<open>Cell\<close>.\<close>

record Cell =
  cvalue :: CellValue
  ctype :: CellType

text \<open>
  \<^verbatim>\<open>typedef struct { size_t rows, cols; Cell *grid; } Sudoku;\<close>
  In the functions that work on one grid only (\<^verbatim>\<open>is_valid\<close>, \<^verbatim>\<open>fill_grid\<close>,
  \<^verbatim>\<open>count_solutions\<close>) the field \<open>grid\<close> is the contents of the array the pointer refers
  to. Row and column indices are \<^verbatim>\<open>int\<close> in the source and are compared with the
  \<^verbatim>\<open>size_t\<close> dimensions; all indices that occur are non-negative, so they are naturals here.
\<close>

record Sudoku =
  rows :: nat
  cols :: nat
  grid :: "Cell list"

section \<open>Constraint checker: \<^verbatim>\<open>is_valid\<close> (lines 92--119)\<close>

text \<open>The row loop: \<^verbatim>\<open>for (x = 0; x < cols; x++) if (x != col && grid[row*cols + x].value == val) return false;\<close>\<close>

function is_valid_row :: "Sudoku \<Rightarrow> nat \<Rightarrow> nat \<Rightarrow> CellValue \<Rightarrow> nat \<Rightarrow> bool" where
  "is_valid_row s row col val x =
     (if x < cols s then
        (if x \<noteq> col \<and> cvalue (grid s ! (row * cols s + x)) = val then False
         else is_valid_row s row col val (x + 1))
      else True)"
  by pat_completeness auto
termination
  by (relation "measure (\<lambda>(s, row, col, val, x). cols s - x)") auto

text \<open>The column loop: \<^verbatim>\<open>for (y = 0; y < rows; y++) if (y != row && grid[y*cols + col].value == val) return false;\<close>\<close>

function is_valid_col :: "Sudoku \<Rightarrow> nat \<Rightarrow> nat \<Rightarrow> CellValue \<Rightarrow> nat \<Rightarrow> bool" where
  "is_valid_col s row col val y =
     (if y < rows s then
        (if y \<noteq> row \<and> cvalue (grid s ! (y * cols s + col)) = val then False
         else is_valid_col s row col val (y + 1))
      else True)"
  by pat_completeness auto
termination
  by (relation "measure (\<lambda>(s, row, col, val, y). rows s - y)") auto

text \<open>The two loops over the 3x3 box, \<open>r\<close> outside and \<open>c\<close> inside.\<close>

function is_valid_box_c :: "Sudoku \<Rightarrow> nat \<Rightarrow> nat \<Rightarrow> CellValue \<Rightarrow> nat \<Rightarrow> nat \<Rightarrow> nat \<Rightarrow> nat \<Rightarrow> bool" where
  "is_valid_box_c s row col val boxRow boxCol r c =
     (if c < 3 then
        (let i = (boxRow + r) * cols s + (boxCol + c) in
         if (boxRow + r \<noteq> row \<or> boxCol + c \<noteq> col) \<and> cvalue (grid s ! i) = val then False
         else is_valid_box_c s row col val boxRow boxCol r (c + 1))
      else True)"
  by pat_completeness auto
termination
  by (relation "measure (\<lambda>(s, row, col, val, boxRow, boxCol, r, c). 3 - c)") auto

function is_valid_box_r :: "Sudoku \<Rightarrow> nat \<Rightarrow> nat \<Rightarrow> CellValue \<Rightarrow> nat \<Rightarrow> nat \<Rightarrow> nat \<Rightarrow> bool" where
  "is_valid_box_r s row col val boxRow boxCol r =
     (if r < 3 then
        (if \<not> is_valid_box_c s row col val boxRow boxCol r 0 then False
         else is_valid_box_r s row col val boxRow boxCol (r + 1))
      else True)"
  by pat_completeness auto
termination
  by (relation "measure (\<lambda>(s, row, col, val, boxRow, boxCol, r). 3 - r)") auto

definition is_valid :: "Sudoku \<Rightarrow> nat \<Rightarrow> nat \<Rightarrow> CellValue \<Rightarrow> bool" where
  "is_valid s row col val =
     (if \<not> is_valid_row s row col val 0 then False
      else if \<not> is_valid_col s row col val 0 then False
      else (let boxRow = (row div 3) * 3; boxCol = (col div 3) * 3
            in is_valid_box_r s row col val boxRow boxCol 0))"

declare is_valid_row.simps [simp del] is_valid_col.simps [simp del]
  is_valid_box_c.simps [simp del] is_valid_box_r.simps [simp del]

text \<open>The value stored at \<open>(row, col)\<close>: \<^verbatim>\<open>grid[row * cols + col].value\<close>.\<close>

definition value_at :: "Sudoku \<Rightarrow> nat \<Rightarrow> nat \<Rightarrow> CellValue" where
  "value_at s row col = cvalue (grid s ! (row * cols s + col))"

text \<open>A 9x9 grid as \<^verbatim>\<open>game_open(ROWS, COLS)\<close> allocates it: 81 cells.\<close>

definition grid9 :: "Sudoku \<Rightarrow> bool" where
  "grid9 s = (rows s = 9 \<and> cols s = 9 \<and> length (grid s) = 81)"

section \<open>Solution counter: \<^verbatim>\<open>count_solutions\<close> (lines 158--185)\<close>

text \<open>The assignment \<^verbatim>\<open>sudoku_ptr->grid[i].value = v\<close>; the cell's type is kept.\<close>

definition set_value :: "Sudoku \<Rightarrow> nat \<Rightarrow> CellValue \<Rightarrow> Sudoku" where
  "set_value s i v = s\<lparr>grid := (grid s)[i := (grid s ! i)\<lparr>cvalue := v\<rparr>]\<rparr>"

text \<open>
  The two \<^verbatim>\<open>for\<close> loops that look for the first empty cell in row-major order. The
  loops return from inside their body at the first empty cell, so the scan gives that
  cell's coordinates, or \<open>None\<close> when both loops run to their end.
\<close>

function find_empty :: "Sudoku \<Rightarrow> nat \<Rightarrow> nat \<Rightarrow> (nat \<times> nat) option" where
  "find_empty s row col =
     (if row < rows s then
        (if col < cols s then
           (if cvalue (grid s ! (row * cols s + col)) = V_None then Some (row, col)
            else find_empty s row (col + 1))
         else find_empty s (row + 1) 0)
      else None)"
  by pat_completeness auto
termination
  by (relation "measures [\<lambda>(s, row, col). rows s - row, \<lambda>(s, row, col). cols s + 1 - col]") auto

declare find_empty.simps [simp del]

text \<open>The number of cells of the array that hold \<^verbatim>\<open>V_None\<close>.\<close>

definition empties :: "Sudoku \<Rightarrow> nat" where
  "empties s = length (filter (\<lambda>c. cvalue c = V_None) (grid s))"

text \<open>
  \<open>count_solutions\<close> returns the grid as the call leaves it together with the number it
  returns; \<open>try_values\<close> is the loop \<^verbatim>\<open>for (val = V_1; val <= V_9; val++)\<close> with the
  running total \<open>solutions_found\<close>. The index \<open>i\<close> is computed once, before the loop, as in
  the source. The counter is an \<^verbatim>\<open>int\<close>; it is an unbounded integer here (its size
  with limit 2 is bounded below). A write at an index outside the array is undefined in C; the model
  leaves the loop there. Arrays made by \<^verbatim>\<open>game_open\<close> have \<open>rows * cols\<close> cells, and the
  scan only yields cells inside them.
\<close>

function (domintros) count_solutions :: "Sudoku \<Rightarrow> int \<Rightarrow> Sudoku \<times> int"
  and try_values :: "Sudoku \<Rightarrow> int \<Rightarrow> nat \<Rightarrow> nat \<Rightarrow> nat \<Rightarrow> CellValue \<Rightarrow> int \<Rightarrow> Sudoku \<times> int"
where
  "count_solutions s limit =
     (case find_empty s 0 0 of
        Some (row, col) \<Rightarrow> try_values s limit row col (row * cols s + col) V_1 0
      | None \<Rightarrow> (s, 1))"
| "try_values s limit row col i val solutions_found =
     (if val \<le> V_9 then
        (if is_valid s row col val then
           (if i < length (grid s) then
              (case count_solutions (set_value s i val) limit of (s1, n) \<Rightarrow>
                 (let found = solutions_found + n;
                      s2 = set_value s1 i V_None
                  in if found \<ge> limit then (s2, found)
                     else try_values s2 limit row col i (val + 1) found))
            else (s, solutions_found))
         else try_values s limit row col i (val + 1) solutions_found)
      else (s, solutions_found))"
  by pat_completeness auto

text \<open>
  The recursion is nested: the loop continues on the grid that the recursive call
  returns. Termination therefore needs to know what that grid is, which is proved first
  on the domain of the function.
\<close>

lemma set_value_twice [simp]: "set_value (set_value s i v) i w = set_value s i w"
  by (cases "i < length (grid s)") (simp_all add: set_value_def list_update_beyond)

lemma length_set_value [simp]: "length (grid (set_value s i v)) = length (grid s)"
  by (simp add: set_value_def)

lemma rows_set_value [simp]: "rows (set_value s i v) = rows s"
  and cols_set_value [simp]: "cols (set_value s i v) = cols s"
  by (simp_all add: set_value_def)

lemma set_value_same: "cvalue (grid s ! i) = v \<Longrightarrow> set_value s i v = s"
  by (auto simp: set_value_def)

lemma find_empty_Some:
  "find_empty s r0 c0 = Some (row, col) \<Longrightarrow>
     row < rows s \<and> col < cols s \<and> cvalue (grid s ! (row * cols s + col)) = V_None"
proof (induction s r0 c0 rule: find_empty.induct)
  case (1 s r c)
  then show ?case
    by (subst (asm) (3) find_empty.simps) (auto split: if_splits)
qed

lemma filter_update_length:
  assumes "i < length xs"
  shows "length (filter P (xs[i := y])) + (if P (xs ! i) then 1 else 0)
       = length (filter P xs) + (if P y then 1 else 0)"
  using assms
proof (induction xs arbitrary: i)
  case Nil
  then show ?case by simp
next
  case (Cons x xs)
  then show ?case by (cases i) auto
qed

lemma empties_set_value:
  assumes "i < length (grid s)"
  shows "empties (set_value s i v) + (if cvalue (grid s ! i) = V_None then 1 else 0)
       = empties s + (if v = V_None then 1 else 0)"
  using filter_update_length [OF assms, of "\<lambda>c. cvalue c = V_None" "(grid s ! i)\<lparr>cvalue := v\<rparr>"]
  by (simp add: empties_def set_value_def)

lemma count_solutions_frame_dom:
  "count_solutions_try_values_dom (Inl (s, limit)) \<Longrightarrow> fst (count_solutions s limit) = s"
  "count_solutions_try_values_dom (Inr (s, limit, row, col, i, val, found)) \<Longrightarrow>
     fst (try_values s limit row col i val found) = s \<or>
     fst (try_values s limit row col i val found) = set_value s i V_None"
proof (induction s limit and s limit row col i val found rule: count_solutions_try_values.pinduct)
  case (1 s limit)
  show ?case
  proof (cases "find_empty s 0 0")
    case None
    with "1.hyps" show ?thesis by (simp add: count_solutions.psimps)
  next
    case (Some rc)
    obtain row col where rc: "rc = (row, col)" by (cases rc)
    from find_empty_Some Some rc
    have "set_value s (row * cols s + col) V_None = s"
      by (metis set_value_same)
    with "1.IH" [OF Some rc [symmetric]] "1.hyps" Some rc show ?thesis
      by (auto simp: count_solutions.psimps)
  qed
next
  case (2 s limit row col i val found)
  note dom = "2.hyps"
  show ?case
  proof (cases "val \<le> 9")
    case False
    with dom show ?thesis by (simp add: try_values.psimps)
  next
    case le: True
    show ?thesis
    proof (cases "is_valid s row col val")
      case False
      with le dom "2.IH"(3) show ?thesis by (simp add: try_values.psimps)
    next
      case ok: True
      show ?thesis
      proof (cases "i < length (grid s)")
        case False
        with le ok dom show ?thesis by (simp add: try_values.psimps)
      next
        case inr: True
        obtain s1 n where r: "count_solutions (set_value s i val) limit = (s1, n)"
          by (cases "count_solutions (set_value s i val) limit")
        from "2.IH"(1) [OF le ok inr] r have s1: "s1 = set_value s i val" by simp
        show ?thesis
        proof (cases "limit \<le> found + n")
          case True
          with le ok inr dom r s1 show ?thesis by (simp add: try_values.psimps)
        next
          case False
          from "2.IH"(2) [OF le ok inr r [symmetric] refl refl False] s1
          have "fst (try_values (set_value s i 0) limit row col i (val + 1) (found + n))
                  = set_value s i 0"
            by auto
          with le ok inr dom r s1 False show ?thesis by (simp add: try_values.psimps)
        qed
      qed
    qed
  qed
qed

termination count_solutions
proof (relation "measures
    [\<lambda>x. case x of Inl (s, limit) \<Rightarrow> empties s
                 | Inr (s, limit, row, col, i, val, found) \<Rightarrow> empties (set_value s i V_None),
     \<lambda>x. case x of Inl (s, limit) \<Rightarrow> 1
                 | Inr (s, limit, row, col, i, val, found) \<Rightarrow> (if val = 0 then 2 else 0),
     \<lambda>x. case x of Inl (s, limit) \<Rightarrow> 0
                 | Inr (s, limit, row, col, i, val, found) \<Rightarrow> 10 - val]", goal_cases)
  case 1
  show ?case by simp
next
  case (2 s limit rc row col)
  from find_empty_Some 2 have "set_value s (row * cols s + col) V_None = s"
    by (metis set_value_same)
  then show ?case by simp
next
  case (3 s limit row col i val found)
  from empties_set_value [OF 3(3), of val] empties_set_value [OF 3(3), of 0]
  show ?case by (auto split: if_splits)
next
  case (4 s limit row col i val found s1 n found' s2)
  from count_solutions_frame_dom(1) [OF 4(8)] 4(4) have "s1 = set_value s i val"
    by (metis fst_conv)
  with 4 show ?case by auto
next
  case (5 s limit row col i val found)
  then show ?case by auto
qed


declare count_solutions.simps [simp del] try_values.simps [simp del]

lemma count_solutions_total:
  "count_solutions_try_values_dom (Inl (s, limit))"
  "count_solutions_try_values_dom (Inr (s, limit, row, col, i, val, found))"
  by (induction s limit and s limit row col i val found rule: count_solutions_try_values.induct)
    (auto intro: count_solutions_try_values.domintros)

text \<open>
  The running total stays small: with limit 2 on a 9x9 grid it is at most 82, far from the
  range of a C \<^verbatim>\<open>int\<close>.
\<close>

lemma count_solutions_upper:
  "1 \<le> limit \<Longrightarrow> length (grid s) = rows s * cols s \<Longrightarrow>
     0 \<le> snd (count_solutions s limit) \<and>
     snd (count_solutions s limit) \<le> 1 + int (empties s) * (limit - 1)"
  "1 \<le> limit \<Longrightarrow> length (grid s) = rows s * cols s \<Longrightarrow> i < length (grid s) \<Longrightarrow>
   cvalue (grid s ! i) = V_None \<Longrightarrow> 1 \<le> val \<Longrightarrow> 0 \<le> found \<Longrightarrow> found < limit \<Longrightarrow>
     found \<le> snd (try_values s limit row col i val found) \<and>
     snd (try_values s limit row col i val found) \<le> 1 + int (empties s) * (limit - 1)"
proof (induction s limit and s limit row col i val found rule: count_solutions_try_values.induct)
  case (1 s limit)
  note l = "1.prems"(1) and wf = "1.prems"(2)
  show ?case
  proof (cases "find_empty s 0 0")
    case None
    then have "count_solutions s limit = (s, 1)" by (simp add: count_solutions.simps)
    with l show ?thesis by simp
  next
    case (Some rc)
    obtain row col where rc: "rc = (row, col)" by (cases rc)
    from find_empty_Some [of s 0 0 row col] Some rc
    have b: "row < rows s" "col < cols s" and e: "cvalue (grid s ! (row * cols s + col)) = V_None"
      by simp_all
    have "row * cols s + col < (row + 1) * cols s" using b(2) by simp
    also have "\<dots> \<le> rows s * cols s" using b(1) by (intro mult_le_mono1) simp
    finally have il: "row * cols s + col < length (grid s)" using wf by simp
    have eq: "count_solutions s limit = try_values s limit row col (row * cols s + col) 1 0"
      using Some rc by (simp add: count_solutions.simps)
    from "1.IH" [OF Some rc [symmetric] l wf il e] l show ?thesis unfolding eq by simp
  qed
next
  case (2 s limit row col i val found)
  note l = "2.prems"(1) and wf = "2.prems"(2) and il = "2.prems"(3) and e = "2.prems"(4)
    and v1 = "2.prems"(5) and f0 = "2.prems"(6) and fl = "2.prems"(7)
  from empties_set_value [OF il, of 1] e have e1: "1 \<le> empties s"
    by simp
  have base: "found \<le> 1 + int (empties s) * (limit - 1)"
  proof -
    have "limit - 1 \<le> int (empties s) * (limit - 1)" using e1 l by (simp add: mult_le_cancel_right1)
    with fl show ?thesis by simp
  qed
  show ?case
  proof (cases "val \<le> 9")
    case False
    then have "try_values s limit row col i val found = (s, found)"
      by (subst try_values.simps) simp
    with base show ?thesis by simp
  next
    case le: True
    show ?thesis
    proof (cases "is_valid s row col val")
      case False
      then have eq: "try_values s limit row col i val found
          = try_values s limit row col i (val + 1) found"
        using le by (subst try_values.simps) simp
      from "2.IH"(3) [OF le False l wf il e _ f0 fl] show ?thesis unfolding eq by simp
    next
      case ok: True
      obtain s1 n where r: "count_solutions (set_value s i val) limit = (s1, n)"
        by (cases "count_solutions (set_value s i val) limit")
      from count_solutions_frame_dom(1) [OF count_solutions_total(1), of "set_value s i val" limit] r
      have s1: "s1 = set_value s i val" by simp
      have undo: "set_value s1 i V_None = s"
        unfolding s1 using e by (simp add: set_value_same)
      from empties_set_value [OF il, of val] e v1
      have em: "int (empties (set_value s i val)) = int (empties s) - 1" by simp
      from "2.IH"(1) [OF le ok il l] wf r em
      have n: "0 \<le> n" "n \<le> 1 + (int (empties s) - 1) * (limit - 1)" by simp_all
      from n(2) fl have up: "found + n \<le> 1 + int (empties s) * (limit - 1)"
        by (simp add: algebra_simps)
      show ?thesis
      proof (cases "limit \<le> found + n")
        case True
        then have "try_values s limit row col i val found = (s, found + n)"
          using le ok il r undo by (subst try_values.simps) simp
        with n(1) up show ?thesis by simp
      next
        case False
        then have eq: "try_values s limit row col i val found
            = try_values s limit row col i (val + 1) (found + n)"
          using le ok il r undo by (subst try_values.simps) simp
        from "2.IH"(2) [OF le ok il r [symmetric] refl refl False, unfolded undo,
            OF l wf il e] f0 n(1) False
        show ?thesis unfolding eq by simp
      qed
    qed
  qed
qed

lemma count_solutions_limit_2_small:
  assumes "grid9 s"
  shows "0 \<le> snd (count_solutions s 2) \<and> snd (count_solutions s 2) \<le> 82"
proof -
  from assms have wf: "length (grid s) = rows s * cols s" and len: "length (grid s) = 81"
    by (simp_all add: grid9_def)
  have "empties s \<le> length (grid s)" unfolding empties_def by (rule length_filter_le)
  with len count_solutions_upper(1) [of 2 s, OF _ wf] show ?thesis by simp
qed

section \<open>Solution generator: \<^verbatim>\<open>fill_grid\<close> (lines 122--155)\<close>

text \<open>
  \<^verbatim>\<open>rand()\<close> yields a non-negative \<^verbatim>\<open>int\<close>; the random source is a stream of naturals,
  and every function that draws from it returns the rest of the stream.

  The shuffle loop: \<^verbatim>\<open>for (i = 0; i < 9; i++) { j = rand() % 9; swap numbers[i], numbers[j]; }\<close>
\<close>

function shuffle :: "CellValue list \<Rightarrow> nat \<Rightarrow> nat stream \<Rightarrow> CellValue list \<times> nat stream" where
  "shuffle numbers i rng =
     (if i < 9 then
        (let j = shd rng mod 9;
             tmp = numbers ! i;
             numbers = numbers[i := numbers ! j];
             numbers = numbers[j := tmp]
         in shuffle numbers (i + 1) (stl rng))
      else (numbers, rng))"
  by pat_completeness auto
termination
  by (relation "measure (\<lambda>(numbers, i, rng). 9 - i)") auto

declare shuffle.simps [simp del]

text \<open>
  \<open>fill_grid\<close> receives the struct by value, so the dimensions are those of the call; the
  array is shared, so the function returns its contents together with the result and the
  rest of the random stream. \<open>try_numbers\<close> is the loop over the shuffled candidates;
  \<open>nextRow\<close> and \<open>nextCol\<close> are computed and the candidates shuffled before the loop, as
  in the source. At a cell outside the program's 9x9 grid (other than the end marker
  \<open>row = rows\<close>) the C code can accept a candidate only after \<^verbatim>\<open>is_valid\<close> has read
  outside the array, which is undefined; when every candidate is rejected before such a
  read the code returns false after the nine draws with the grid as it was, and this is
  what the model answers at every cell outside the grid. No call that starts at \<open>(0, 0)\<close>
  reaches such a cell.
\<close>

function fill_grid :: "Sudoku \<Rightarrow> nat \<Rightarrow> nat \<Rightarrow> nat stream \<Rightarrow> bool \<times> Cell list \<times> nat stream"
  and try_numbers :: "Sudoku \<Rightarrow> nat \<Rightarrow> nat \<Rightarrow> nat \<Rightarrow> nat \<Rightarrow> CellValue list \<Rightarrow> nat \<Rightarrow> nat stream
      \<Rightarrow> bool \<times> Cell list \<times> nat stream"
where
  "fill_grid s row col rng =
     (if row = rows s then (True, grid s, rng)
      else
        (let nextRow = (if col = cols s - 1 then row + 1 else row);
             nextCol = (col + 1) mod cols s;
             (numbers, rng) = shuffle [1, 2, 3, 4, 5, 6, 7, 8, 9] 0 rng
         in if row < rows s \<and> col < cols s
            then try_numbers s row col nextRow nextCol numbers 0 rng
            else (False, grid s, rng)))"
| "try_numbers s row col nextRow nextCol numbers i rng =
     (if i < 9 then
        (let current_val = numbers ! i in
         if is_valid s row col current_val then
           (case fill_grid (set_value s (row * cols s + col) current_val) nextRow nextCol rng of
              (filled, cs, rng) \<Rightarrow>
                if filled then (True, cs, rng)
                else try_numbers (set_value (s\<lparr>grid := cs\<rparr>) (row * cols s + col) V_None)
                       row col nextRow nextCol numbers (i + 1) rng)
         else try_numbers s row col nextRow nextCol numbers (i + 1) rng)
      else (False, grid s, rng))"
  by pat_completeness auto
termination fill_grid
proof (relation "measures
    [\<lambda>x. case x of Inl (s, row, col, rng) \<Rightarrow> rows s * cols s - (row * cols s + col)
                 | Inr (s, row, col, nextRow, nextCol, numbers, i, rng) \<Rightarrow>
                     rows s * cols s - (nextRow * cols s + nextCol),
     \<lambda>x. case x of Inl (s, row, col, rng) \<Rightarrow> 1
                 | Inr (s, row, col, nextRow, nextCol, numbers, i, rng) \<Rightarrow> 2,
     \<lambda>x. case x of Inl (s, row, col, rng) \<Rightarrow> 0
                 | Inr (s, row, col, nextRow, nextCol, numbers, i, rng) \<Rightarrow> 9 - i]", goal_cases)
  case 1
  show ?case by simp
next
  case (2 s row col rng nextRow nextCol pr numbers rng')
  from 2(6) have b: "row < rows s" "col < cols s" by simp_all
  then have lt: "row * cols s + col < rows s * cols s"
    by (metis add_less_cancel_left less_le_trans mult_Suc mult_le_mono1 Suc_leI add.commute)
  have "nextRow * cols s + nextCol = row * cols s + col + 1"
  proof (cases "col = cols s - 1")
    case True
    with b 2(2,3) show ?thesis by simp
  next
    case False
    with b 2(2,3) show ?thesis by simp
  qed
  with lt show ?case by simp
next
  case 3
  then show ?case by simp
next
  case 4
  then show ?case by (simp add: set_value_def)
next
  case 5
  then show ?case by simp
qed

declare fill_grid.simps [simp del] try_numbers.simps [simp del]

section \<open>The store, \<^verbatim>\<open>has_unique_solution\<close>, \<^verbatim>\<open>remove_cells\<close> and \<^verbatim>\<open>generate_new_game\<close>\<close>

text \<open>
  The functions below work on several arrays at once and copy between them, so the arrays
  live in a store. An address is an index into the store; \<^verbatim>\<open>calloc\<close> appends a block and
  \<^verbatim>\<open>free\<close> marks a block as gone (\<open>None\<close>). The C struct \<^verbatim>\<open>Sudoku\<close> with its pointer is
  \<open>Sudoku_ref\<close>; \<open>None\<close> is the \<^verbatim>\<open>NULL\<close> pointer. \<open>load\<close> reads the struct together with
  the contents of its array, which is what the single-grid functions above take.
  Allocation always succeeds in the model (the source exits the process when \<^verbatim>\<open>calloc\<close>
  fails).
\<close>

type_synonym heap = "Cell list option list"

record Sudoku_ref =
  ref_rows :: nat
  ref_cols :: nat
  ref_grid :: "nat option"

definition cells :: "heap \<Rightarrow> Sudoku_ref \<Rightarrow> Cell list" where
  "cells h p =
     (case ref_grid p of
        None \<Rightarrow> []
      | Some a \<Rightarrow> (if a < length h then (case h ! a of None \<Rightarrow> [] | Some cs \<Rightarrow> cs) else []))"

definition store :: "heap \<Rightarrow> Sudoku_ref \<Rightarrow> Cell list \<Rightarrow> heap" where
  "store h p cs =
     (case ref_grid p of
        None \<Rightarrow> h
      | Some a \<Rightarrow> (if a < length h \<and> h ! a \<noteq> None then h[a := Some cs] else h))"

definition load :: "heap \<Rightarrow> Sudoku_ref \<Rightarrow> Sudoku" where
  "load h p = \<lparr>rows = ref_rows p, cols = ref_cols p, grid = cells h p\<rparr>"

definition game_open :: "heap \<Rightarrow> nat \<Rightarrow> nat \<Rightarrow> Sudoku_ref \<times> heap" where
  "game_open h n_rows n_cols =
     (\<lparr>ref_rows = n_rows, ref_cols = n_cols, ref_grid = Some (length h)\<rparr>,
      h @ [Some (replicate (n_rows * n_cols) \<lparr>cvalue = V_None, ctype = FIXED\<rparr>)])"

definition game_close :: "heap \<Rightarrow> Sudoku_ref \<Rightarrow> heap" where
  "game_close h sudoku_instance =
     (case ref_grid sudoku_instance of None \<Rightarrow> h | Some a \<Rightarrow> h[a := None])"

function grid_fill_loop :: "Cell list \<Rightarrow> nat \<Rightarrow> CellValue \<Rightarrow> CellType \<Rightarrow> nat \<Rightarrow> Cell list" where
  "grid_fill_loop cs n val ty i =
     (if i < n then grid_fill_loop (cs[i := (cs ! i)\<lparr>cvalue := val, ctype := ty\<rparr>]) n val ty (i + 1)
      else cs)"
  by pat_completeness auto
termination
  by (relation "measure (\<lambda>(cs, n, val, ty, i). n - i)") auto

declare grid_fill_loop.simps [simp del]

definition grid_fill :: "heap \<Rightarrow> Sudoku_ref \<Rightarrow> CellValue \<Rightarrow> CellType \<Rightarrow> heap" where
  "grid_fill h sudoku_instance val ty =
     store h sudoku_instance
       (grid_fill_loop (cells h sudoku_instance)
          (ref_rows sudoku_instance * ref_cols sudoku_instance) val ty 0)"

definition memcpy :: "heap \<Rightarrow> Sudoku_ref \<Rightarrow> Sudoku_ref \<Rightarrow> nat \<Rightarrow> heap" where
  "memcpy h dst src n = store h dst (take n (cells h src) @ drop n (cells h dst))"

text \<open>
  \<^verbatim>\<open>has_unique_solution\<close> (lines 188--196): allocate a copy, \<^verbatim>\<open>memcpy\<close> the caller's cells
  into it, run the counter on the copy (the counter works in place, so the copy's array
  is written back to the store), free the copy.
\<close>

definition has_unique_solution :: "heap \<Rightarrow> Sudoku_ref \<Rightarrow> bool \<times> heap" where
  "has_unique_solution h sudoku_ptr =
     (let (copy, h) = game_open h (ref_rows sudoku_ptr) (ref_cols sudoku_ptr);
          h = memcpy h copy sudoku_ptr (ref_rows sudoku_ptr * ref_cols sudoku_ptr);
          (s, num_solutions) = count_solutions (load h copy) 2;
          h = store h copy (grid s);
          h = game_close h copy
      in (num_solutions = 1, h))"

text \<open>
  \<^verbatim>\<open>remove_cells\<close> (lines 199--238). The \<^verbatim>\<open>while\<close> loop has no bound on the number of
  random probes and need not terminate, so it is a partial function: \<open>None\<close> stands for
  a loop that runs forever. \<open>put_cell\<close> writes both fields of a cell through the pointer
  \<^verbatim>\<open>cell\<close>. The second loop sets the type of every cell.
\<close>

definition put_cell :: "heap \<Rightarrow> Sudoku_ref \<Rightarrow> nat \<Rightarrow> Cell \<Rightarrow> heap" where
  "put_cell h p idx c = store h p ((cells h p)[idx := c])"

partial_function (option) remove_cells_loop ::
  "Sudoku_ref \<Rightarrow> int \<Rightarrow> heap \<Rightarrow> int \<Rightarrow> nat stream \<Rightarrow> (heap \<times> nat stream) option"
where
  "remove_cells_loop puzzle_grid count h removed_count rng =
     (if removed_count < count then
        (let row = shd rng mod ref_rows puzzle_grid;
             col = shd (stl rng) mod ref_cols puzzle_grid;
             rng = stl (stl rng);
             idx = row * ref_cols puzzle_grid + col;
             cell = cells h puzzle_grid ! idx
         in if cvalue cell = V_None then remove_cells_loop puzzle_grid count h removed_count rng
            else
              (let backup_value = cvalue cell;
                   backup_type = ctype cell;
                   h = put_cell h puzzle_grid idx \<lparr>cvalue = V_None, ctype = DYNAMIC\<rparr>;
                   (unique, h) = has_unique_solution h puzzle_grid
               in if \<not> unique then
                    remove_cells_loop puzzle_grid count
                      (put_cell h puzzle_grid idx \<lparr>cvalue = backup_value, ctype = FIXED\<rparr>)
                      removed_count rng
                  else remove_cells_loop puzzle_grid count h (removed_count + 1) rng))
      else Some (h, rng))"

function set_types_loop :: "Cell list \<Rightarrow> nat \<Rightarrow> nat \<Rightarrow> Cell list" where
  "set_types_loop cs n i =
     (if i < n then
        (if cvalue (cs ! i) = V_None then set_types_loop (cs[i := (cs ! i)\<lparr>ctype := DYNAMIC\<rparr>]) n (i + 1)
         else set_types_loop (cs[i := (cs ! i)\<lparr>ctype := FIXED\<rparr>]) n (i + 1))
      else cs)"
  by pat_completeness auto
termination
  by (relation "measure (\<lambda>(cs, n, i). n - i)") auto

declare set_types_loop.simps [simp del]

definition remove_cells ::
  "heap \<Rightarrow> Sudoku_ref \<Rightarrow> Sudoku_ref \<Rightarrow> int \<Rightarrow> nat stream \<Rightarrow> (heap \<times> nat stream) option" where
  "remove_cells h puzzle_grid solution_grid_ref count rng =
     (case remove_cells_loop puzzle_grid count h 0 rng of
        None \<Rightarrow> None
      | Some (h, rng) \<Rightarrow>
          Some (store h puzzle_grid
                  (set_types_loop (cells h puzzle_grid)
                     (ref_rows puzzle_grid * ref_cols puzzle_grid) 0),
                rng))"

text \<open>
  \<^verbatim>\<open>generate_new_game\<close> (lines 241--261) with the two global grids as explicit state.
\<close>

abbreviation (input) ROWS :: nat where "ROWS \<equiv> 9"
abbreviation (input) COLS :: nat where "COLS \<equiv> 9"

record globals =
  current_puzzle_grid :: Sudoku_ref
  solution_grid :: Sudoku_ref

definition generate_new_game ::
  "globals \<Rightarrow> heap \<Rightarrow> int \<Rightarrow> nat stream \<Rightarrow> (globals \<times> heap \<times> nat stream) option" where
  "generate_new_game g h cells_to_remove rng =
     (let (temp_solution, h) = game_open h ROWS COLS;
          h = grid_fill h temp_solution V_None DYNAMIC;
          (filled, cs, rng) = fill_grid (load h temp_solution) 0 0 rng;
          h = store h temp_solution cs;
          (g, h) = (if ref_grid (solution_grid g) = None
                    then (let (p, h) = game_open h ROWS COLS in (g\<lparr>solution_grid := p\<rparr>, h))
                    else (g, h));
          h = memcpy h (solution_grid g) temp_solution (ROWS * COLS);
          (g, h) = (if ref_grid (current_puzzle_grid g) = None
                    then (let (p, h) = game_open h ROWS COLS in (g\<lparr>current_puzzle_grid := p\<rparr>, h))
                    else (g, h));
          h = memcpy h (current_puzzle_grid g) temp_solution (ROWS * COLS)
      in case remove_cells h (current_puzzle_grid g) (solution_grid g) cells_to_remove rng of
           None \<Rightarrow> None
         | Some (h, rng) \<Rightarrow> Some (g, game_close h temp_solution, rng))"

text \<open>A struct whose pointer refers to a block of the store that holds \<open>rows * cols\<close> cells.\<close>

definition live :: "heap \<Rightarrow> Sudoku_ref \<Rightarrow> bool" where
  "live h p =
     (case ref_grid p of
        None \<Rightarrow> False
      | Some a \<Rightarrow> a < length h \<and> h ! a \<noteq> None \<and> length (cells h p) = ref_rows p * ref_cols p)"

text \<open>
  The state in which \<^verbatim>\<open>generate_new_game\<close> may be called: each global grid is \<^verbatim>\<open>NULL\<close>
  (as \<^verbatim>\<open>main\<close> sets it) or a live 9x9 grid (as an earlier call leaves it), and the two
  do not share an array.
\<close>

definition ref_ok :: "heap \<Rightarrow> Sudoku_ref \<Rightarrow> bool" where
  "ref_ok h p = (ref_grid p = None \<or> (live h p \<and> ref_rows p = 9 \<and> ref_cols p = 9))"

definition globals_ok :: "globals \<Rightarrow> heap \<Rightarrow> bool" where
  "globals_ok g h =
     (ref_ok h (current_puzzle_grid g) \<and> ref_ok h (solution_grid g) \<and>
      (ref_grid (current_puzzle_grid g) = None \<or>
       ref_grid (current_puzzle_grid g) \<noteq> ref_grid (solution_grid g)))"

text \<open>The struct \<open>p\<close> is 9x9 and its array is the block at address \<open>a\<close>, which holds \<open>cs\<close>.\<close>

definition block9 :: "heap \<Rightarrow> Sudoku_ref \<Rightarrow> nat \<Rightarrow> Cell list \<Rightarrow> bool" where
  "block9 h p a cs =
     (ref_rows p = 9 \<and> ref_cols p = 9 \<and> ref_grid p = Some a \<and> a < length h \<and>
      h ! a = Some cs \<and> length cs = 81)"

section \<open>Solved grids, completions and conflict-free grids\<close>

text \<open>
  The values of row \<open>r\<close>, of column \<open>c\<close> and of the 3x3 box \<open>b\<close> (boxes numbered in
  row-major order) of a 9x9 grid.
\<close>

definition row_values :: "Sudoku \<Rightarrow> nat \<Rightarrow> CellValue list" where
  "row_values s r = map (\<lambda>c. value_at s r c) [0..<9]"

definition col_values :: "Sudoku \<Rightarrow> nat \<Rightarrow> CellValue list" where
  "col_values s c = map (\<lambda>r. value_at s r c) [0..<9]"

definition box_values :: "Sudoku \<Rightarrow> nat \<Rightarrow> CellValue list" where
  "box_values s b = map (\<lambda>k. value_at s (3 * (b div 3) + k div 3) (3 * (b mod 3) + k mod 3)) [0..<9]"

text \<open>
  A list is a permutation of 1..9 when its elements are distinct and are the numbers 1 to
  9. A grid is solved (complete and valid) when it is 9x9, no cell is empty, and every
  row, every column and every box is a permutation of 1..9.
\<close>

definition permutation_1_9 :: "CellValue list \<Rightarrow> bool" where
  "permutation_1_9 xs = (distinct xs \<and> set xs = {1..9})"

definition solved :: "Sudoku \<Rightarrow> bool" where
  "solved s =
     (grid9 s \<and>
      list_all (\<lambda>c. cvalue c \<noteq> V_None) (grid s) \<and>
      list_all (\<lambda>r. permutation_1_9 (row_values s r)) [0..<9] \<and>
      list_all (\<lambda>c. permutation_1_9 (col_values s c)) [0..<9] \<and>
      list_all (\<lambda>b. permutation_1_9 (box_values s b)) [0..<9])"

text \<open>
  \<open>t\<close> fills \<open>s\<close> when it has the dimensions and the cell types of \<open>s\<close> and every filled
  cell of \<open>s\<close> keeps its value. The valid completions of \<open>s\<close> are the solved grids that
  fill it.
\<close>

definition fills :: "Sudoku \<Rightarrow> Sudoku \<Rightarrow> bool" where
  "fills s t =
     (rows t = rows s \<and> cols t = cols s \<and>
      list_all2 (\<lambda>a b. ctype b = ctype a \<and> (cvalue a = V_None \<or> cvalue b = cvalue a))
        (grid s) (grid t))"

definition completions :: "Sudoku \<Rightarrow> Sudoku set" where
  "completions s = {t. fills s t \<and> solved t}"

text \<open>
  Two cells are peers when they differ and share a row, a column or a box. A grid is
  conflict-free when its values are at most 9 and no filled cell has a peer that holds
  the same value.
\<close>

definition peer :: "nat \<Rightarrow> nat \<Rightarrow> nat \<Rightarrow> nat \<Rightarrow> bool" where
  "peer r c r' c' =
     ((r, c) \<noteq> (r', c') \<and> (r = r' \<or> c = c' \<or> (r div 3 = r' div 3 \<and> c div 3 = c' div 3)))"

definition consistent :: "Sudoku \<Rightarrow> bool" where
  "consistent s =
     (\<forall>r<9. \<forall>c<9. value_at s r c \<le> 9 \<and>
        (value_at s r c \<noteq> V_None \<longrightarrow>
           (\<forall>r'<9. \<forall>c'<9. peer r c r' c' \<longrightarrow> value_at s r' c' \<noteq> value_at s r c)))"

text \<open>Two grids of the same dimensions whose cells hold the same values (the types may differ).\<close>

definition same_values :: "Sudoku \<Rightarrow> Sudoku \<Rightarrow> bool" where
  "same_values s s' =
     (rows s = rows s' \<and> cols s = cols s' \<and> map cvalue (grid s) = map cvalue (grid s'))"

text \<open>
  The state of the generator at cell number \<open>k\<close>: the cells before \<open>k\<close> are filled, the
  others are empty. A search result is sound when success comes with a solved grid and
  failure with the grid as it was.
\<close>

definition filled_upto :: "Sudoku \<Rightarrow> nat \<Rightarrow> bool" where
  "filled_upto s k = (\<forall>i<length (grid s). (cvalue (grid s ! i) \<noteq> V_None) = (i < k))"

definition search_sound :: "Sudoku \<Rightarrow> bool \<times> Cell list \<times> nat stream \<Rightarrow> bool" where
  "search_sound s r = (if fst r then solved (s\<lparr>grid := fst (snd r)\<rparr>) else fst (snd r) = grid s)"

text \<open>
  The invariant of the \<^verbatim>\<open>while\<close> loop of \<^verbatim>\<open>remove_cells\<close>, started on the store \<open>h0\<close>:
  the puzzle grid is live, the store has only grown and its other blocks are unchanged,
  the number of empty cells is \<open>removed_count\<close>, the counter answers 1, and every filled
  cell holds the value it had at the start.
\<close>

definition carve_inv :: "heap \<Rightarrow> Sudoku_ref \<Rightarrow> heap \<Rightarrow> int \<Rightarrow> bool" where
  "carve_inv h0 p h removed =
     (live h p \<and> length h0 \<le> length h \<and>
      (\<forall>b<length h0. ref_grid p \<noteq> Some b \<longrightarrow> h ! b = h0 ! b) \<and>
      int (empties (load h p)) = removed \<and>
      snd (count_solutions (load h p) 2) = 1 \<and>
      list_all2 (\<lambda>c c0. cvalue c = V_None \<or> cvalue c = cvalue c0) (cells h p) (cells h0 p))"

section \<open>Concrete grids\<close>

definition cells_of :: "CellType \<Rightarrow> CellValue list \<Rightarrow> Cell list" where
  "cells_of t vs = map (\<lambda>v. \<lparr>cvalue = v, ctype = t\<rparr>) vs"

text \<open>A solved grid: row \<open>r\<close>, column \<open>c\<close> holds \<open>(3 r + r div 3 + c) mod 9 + 1\<close>.\<close>

definition solved_values :: "CellValue list" where
  "solved_values =
    [1,2,3, 4,5,6, 7,8,9,
     4,5,6, 7,8,9, 1,2,3,
     7,8,9, 1,2,3, 4,5,6,
     2,3,4, 5,6,7, 8,9,1,
     5,6,7, 8,9,1, 2,3,4,
     8,9,1, 2,3,4, 5,6,7,
     3,4,5, 6,7,8, 9,1,2,
     6,7,8, 9,1,2, 3,4,5,
     9,1,2, 3,4,5, 6,7,8]"

definition solved_example :: Sudoku where
  "solved_example = \<lparr>rows = 9, cols = 9, grid = cells_of FIXED solved_values\<rparr>"

text \<open>
  The solved grid with eight cells emptied: columns 2, 5 and 8 of rows 0 and 1, and
  columns 2 and 5 of row 2.
\<close>

definition three_solutions_values :: "CellValue list" where
  "three_solutions_values =
    [1,2,0, 4,5,0, 7,8,0,
     4,5,0, 7,8,0, 1,2,0,
     7,8,0, 1,2,0, 4,5,6,
     2,3,4, 5,6,7, 8,9,1,
     5,6,7, 8,9,1, 2,3,4,
     8,9,1, 2,3,4, 5,6,7,
     3,4,5, 6,7,8, 9,1,2,
     6,7,8, 9,1,2, 3,4,5,
     9,1,2, 3,4,5, 6,7,8]"

definition three_solutions_example :: Sudoku where
  "three_solutions_example = \<lparr>rows = 9, cols = 9, grid = cells_of FIXED three_solutions_values\<rparr>"

text \<open>The solved grid with a 2 written over the 1 of its first cell, next to the 2 of the same row.\<close>

definition conflict_example :: Sudoku where
  "conflict_example = set_value solved_example 0 2"

text \<open>The grid that \<^verbatim>\<open>grid_fill(temp_solution, V_None, DYNAMIC)\<close> makes.\<close>

definition empty_example :: Sudoku where
  "empty_example = \<lparr>rows = 9, cols = 9, grid = replicate 81 \<lparr>cvalue = V_None, ctype = DYNAMIC\<rparr>\<rparr>"

text \<open>
  The globals as \<^verbatim>\<open>main\<close> initialises them, and a store that holds the solved grid.
\<close>

definition null_ref :: Sudoku_ref where
  "null_ref = \<lparr>ref_rows = 0, ref_cols = 0, ref_grid = None\<rparr>"

definition initial_globals :: globals where
  "initial_globals = \<lparr>current_puzzle_grid = null_ref, solution_grid = null_ref\<rparr>"

definition solved_heap :: heap where
  "solved_heap = [Some (grid solved_example)]"

definition first_ref :: Sudoku_ref where
  "first_ref = \<lparr>ref_rows = 9, ref_cols = 9, ref_grid = Some 0\<rparr>"

section \<open>What the loops of \<^verbatim>\<open>is_valid\<close> compute\<close>

lemma is_valid_row_iff:
  "is_valid_row s row col val x0 \<longleftrightarrow>
     (\<forall>x. x0 \<le> x \<and> x < cols s \<and> x \<noteq> col \<longrightarrow> value_at s row x \<noteq> val)"
proof (induction s row col val x0 rule: is_valid_row.induct)
  case (1 s row col val x)
  show ?case
  proof (cases "x < cols s")
    case False
    then show ?thesis by (simp add: is_valid_row.simps [of s row col val x])
  next
    case True
    show ?thesis
    proof (cases "x \<noteq> col \<and> cvalue (grid s ! (row * cols s + x)) = val")
      case hit: True
      with True show ?thesis
        by (auto simp: is_valid_row.simps [of s row col val x] value_at_def)
    next
      case miss: False
      have split: "\<And>x'. (x \<le> x') = (x' = x \<or> x + 1 \<le> x')" by auto
      from True miss "1.IH" show ?thesis
        by (auto simp: is_valid_row.simps [of s row col val x] value_at_def split)
    qed
  qed
qed

lemma is_valid_col_iff:
  "is_valid_col s row col val y0 \<longleftrightarrow>
     (\<forall>y. y0 \<le> y \<and> y < rows s \<and> y \<noteq> row \<longrightarrow> value_at s y col \<noteq> val)"
proof (induction s row col val y0 rule: is_valid_col.induct)
  case (1 s row col val y)
  show ?case
  proof (cases "y < rows s")
    case False
    then show ?thesis by (simp add: is_valid_col.simps [of s row col val y])
  next
    case True
    show ?thesis
    proof (cases "y \<noteq> row \<and> cvalue (grid s ! (y * cols s + col)) = val")
      case hit: True
      with True show ?thesis
        by (auto simp: is_valid_col.simps [of s row col val y] value_at_def)
    next
      case miss: False
      have split: "\<And>y'. (y \<le> y') = (y' = y \<or> y + 1 \<le> y')" by auto
      from True miss "1.IH" show ?thesis
        by (auto simp: is_valid_col.simps [of s row col val y] value_at_def split)
    qed
  qed
qed

lemma is_valid_box_c_iff:
  "is_valid_box_c s row col val boxRow boxCol r c0 \<longleftrightarrow>
     (\<forall>c. c0 \<le> c \<and> c < 3 \<and> (boxRow + r \<noteq> row \<or> boxCol + c \<noteq> col)
          \<longrightarrow> value_at s (boxRow + r) (boxCol + c) \<noteq> val)"
proof (induction s row col val boxRow boxCol r c0 rule: is_valid_box_c.induct)
  case (1 s row col val boxRow boxCol r c)
  show ?case
  proof (cases "c < 3")
    case False
    then show ?thesis
      by (simp add: is_valid_box_c.simps [of s row col val boxRow boxCol r c])
  next
    case True
    show ?thesis
    proof (cases "(boxRow + r \<noteq> row \<or> boxCol + c \<noteq> col)
        \<and> cvalue (grid s ! ((boxRow + r) * cols s + (boxCol + c))) = val")
      case hit: True
      with True show ?thesis
        by (auto simp: is_valid_box_c.simps [of s row col val boxRow boxCol r c] value_at_def)
    next
      case miss: False
      have split: "\<And>c'. (c \<le> c') = (c' = c \<or> c + 1 \<le> c')" by auto
      from True miss "1.IH" [OF True refl] show ?thesis
        by (auto simp: is_valid_box_c.simps [of s row col val boxRow boxCol r c]
            value_at_def split)
    qed
  qed
qed

lemma is_valid_box_r_iff:
  "is_valid_box_r s row col val boxRow boxCol r0 \<longleftrightarrow>
     (\<forall>r c. r0 \<le> r \<and> r < 3 \<and> c < 3 \<and> (boxRow + r \<noteq> row \<or> boxCol + c \<noteq> col)
          \<longrightarrow> value_at s (boxRow + r) (boxCol + c) \<noteq> val)"
proof (induction s row col val boxRow boxCol r0 rule: is_valid_box_r.induct)
  case (1 s row col val boxRow boxCol r)
  show ?case
  proof (cases "r < 3")
    case False
    then show ?thesis
      by (simp add: is_valid_box_r.simps [of s row col val boxRow boxCol r])
  next
    case True
    have split: "\<And>r'. (r \<le> r') = (r' = r \<or> r + 1 \<le> r')" by auto
    show ?thesis
    proof (cases "is_valid_box_c s row col val boxRow boxCol r 0")
      case False
      with True show ?thesis
        by (subst is_valid_box_r.simps) (auto simp: is_valid_box_c_iff)
    next
      case ok: True
      from True ok "1.IH" show ?thesis
        by (subst is_valid_box_r.simps) (auto simp: is_valid_box_c_iff split)
    qed
  qed
qed

text \<open>
  The three scans together: \<open>is_valid\<close> answers false exactly when the value stands in the
  row at another column, in the column at another row, or in the 3x3 box at another
  position.
\<close>

lemma is_valid_scan:
  "is_valid s row col val \<longleftrightarrow>
     (\<forall>x. x < cols s \<and> x \<noteq> col \<longrightarrow> value_at s row x \<noteq> val) \<and>
     (\<forall>y. y < rows s \<and> y \<noteq> row \<longrightarrow> value_at s y col \<noteq> val) \<and>
     (\<forall>r c. r < 3 \<and> c < 3 \<and> ((row div 3) * 3 + r \<noteq> row \<or> (col div 3) * 3 + c \<noteq> col)
          \<longrightarrow> value_at s ((row div 3) * 3 + r) ((col div 3) * 3 + c) \<noteq> val)"
  by (auto simp: is_valid_def is_valid_row_iff is_valid_col_iff is_valid_box_r_iff Let_def)

section \<open>Completions and the search\<close>

text \<open>\<open>is_valid\<close> in terms of peers.\<close>

lemma box_pos:
  fixes row r :: nat
  assumes "row < 9" "r < 3"
  shows "(row div 3) * 3 + r < 9" "((row div 3) * 3 + r) div 3 = row div 3"
  using assms by presburger+

lemma box_decomp:
  fixes r' row :: nat
  assumes "r' div 3 = row div 3"
  shows "\<exists>r<3. r' = (row div 3) * 3 + r"
proof -
  have "r' = (row div 3) * 3 + r' mod 3" using assms by (metis div_mult_mod_eq)
  then show ?thesis by (intro exI [of _ "r' mod 3"]) simp
qed

lemma is_valid_peers:
  assumes "grid9 s" "row < 9" "col < 9"
  shows "is_valid s row col val \<longleftrightarrow>
           (\<forall>r'<9. \<forall>c'<9. peer row col r' c' \<longrightarrow> value_at s r' c' \<noteq> val)"
proof
  assume v: "is_valid s row col val"
  show "\<forall>r'<9. \<forall>c'<9. peer row col r' c' \<longrightarrow> value_at s r' c' \<noteq> val"
  proof (intro allI impI)
    fix r' c' assume b: "r' < 9" "c' < 9" and p: "peer row col r' c'"
    from p consider (row) "r' = row" "c' \<noteq> col" | (col) "c' = col" "r' \<noteq> row"
      | (box) "r' div 3 = row div 3" "c' div 3 = col div 3" "r' \<noteq> row \<or> c' \<noteq> col"
      unfolding peer_def prod.inject by metis
    then show "value_at s r' c' \<noteq> val"
    proof cases
      case row
      with v b assms(1) show ?thesis by (simp add: is_valid_scan grid9_def)
    next
      case col
      with v b assms(1) show ?thesis by (simp add: is_valid_scan grid9_def)
    next
      case box
      from box_decomp [OF box(1)] obtain r where r: "r < 3" "r' = row div 3 * 3 + r" by blast
      from box_decomp [OF box(2)] obtain c where c: "c < 3" "c' = col div 3 * 3 + c" by blast
      from v have "\<And>r c. r < 3 \<and> c < 3 \<and> (row div 3 * 3 + r \<noteq> row \<or> col div 3 * 3 + c \<noteq> col)
          \<longrightarrow> value_at s (row div 3 * 3 + r) (col div 3 * 3 + c) \<noteq> val"
        unfolding is_valid_scan by blast
      from this [of r c] r c box(3) show ?thesis by simp
    qed
  qed
next
  assume a: "\<forall>r'<9. \<forall>c'<9. peer row col r' c' \<longrightarrow> value_at s r' c' \<noteq> val"
  have rowp: "\<And>x. x < 9 \<Longrightarrow> x \<noteq> col \<Longrightarrow> value_at s row x \<noteq> val"
    using a assms(2) by (simp add: peer_def)
  have colp: "\<And>y. y < 9 \<Longrightarrow> y \<noteq> row \<Longrightarrow> value_at s y col \<noteq> val"
    using a assms(3) by (simp add: peer_def)
  have boxp: "\<And>r c. r < 3 \<Longrightarrow> c < 3 \<Longrightarrow> row div 3 * 3 + r \<noteq> row \<or> col div 3 * 3 + c \<noteq> col
      \<Longrightarrow> value_at s (row div 3 * 3 + r) (col div 3 * 3 + c) \<noteq> val"
  proof -
    fix r c assume h: "r < (3::nat)" "c < (3::nat)"
      "row div 3 * 3 + r \<noteq> row \<or> col div 3 * 3 + c \<noteq> col"
    from box_pos [OF assms(2) h(1)] box_pos [OF assms(3) h(2)] h(3)
    have "peer row col (row div 3 * 3 + r) (col div 3 * 3 + c)"
      by (auto simp: peer_def)
    with a box_pos(1) [OF assms(2) h(1)] box_pos(1) [OF assms(3) h(2)]
    show "value_at s (row div 3 * 3 + r) (col div 3 * 3 + c) \<noteq> val" by blast
  qed
  from assms(1) rowp colp boxp show "is_valid s row col val"
    unfolding is_valid_scan grid9_def by auto
qed


lemma list_all_upt9: "list_all P [0..<9] \<longleftrightarrow> (\<forall>n<9. P n)"
  by (auto simp: list_all_iff)

lemma solved_units:
  assumes "solved t"
  shows "grid9 t"
    and "\<And>r. r < 9 \<Longrightarrow> permutation_1_9 (row_values t r)"
    and "\<And>c. c < 9 \<Longrightarrow> permutation_1_9 (col_values t c)"
    and "\<And>b. b < 9 \<Longrightarrow> permutation_1_9 (box_values t b)"
  using assms by (simp_all add: solved_def list_all_upt9)

lemma row_values_nth: "c < 9 \<Longrightarrow> row_values s r ! c = value_at s r c"
  and col_values_nth: "r < 9 \<Longrightarrow> col_values s c ! r = value_at s r c"
  and box_values_nth: "k < 9 \<Longrightarrow>
      box_values s b ! k = value_at s (3 * (b div 3) + k div 3) (3 * (b mod 3) + k mod 3)"
  and length_row_values [simp]: "length (row_values s r) = 9"
  and length_col_values [simp]: "length (col_values s c) = 9"
  and length_box_values [simp]: "length (box_values s b) = 9"
  by (simp_all add: row_values_def col_values_def box_values_def del: upt_Suc)

text \<open>The box of a cell and the cell's place in it.\<close>

lemma box_index:
  fixes r c :: nat
  assumes "r < 9" "c < 9"
  shows "3 * (r div 3) + c div 3 < 9" "3 * (r mod 3) + c mod 3 < 9"
    "3 * ((3 * (r div 3) + c div 3) div 3) + (3 * (r mod 3) + c mod 3) div 3 = r"
    "3 * ((3 * (r div 3) + c div 3) mod 3) + (3 * (r mod 3) + c mod 3) mod 3 = c"
proof -
  have c: "c div 3 < 3" "c mod 3 < 3" and r: "r div 3 < 3" "r mod 3 < 3"
    using assms by simp_all
  show "3 * (r div 3) + c div 3 < 9" "3 * (r mod 3) + c mod 3 < 9"
    using c r by linarith+
  have "(3 * (r div 3) + c div 3) div 3 = r div 3" "(3 * (r mod 3) + c mod 3) div 3 = r mod 3"
    "(3 * (r div 3) + c div 3) mod 3 = c div 3" "(3 * (r mod 3) + c mod 3) mod 3 = c mod 3"
    using c by simp_all
  then show "3 * ((3 * (r div 3) + c div 3) div 3) + (3 * (r mod 3) + c mod 3) div 3 = r"
    "3 * ((3 * (r div 3) + c div 3) mod 3) + (3 * (r mod 3) + c mod 3) mod 3 = c"
    by simp_all
qed

lemma solved_value_range:
  assumes "solved t" "r < 9" "c < 9"
  shows "1 \<le> value_at t r c \<and> value_at t r c \<le> 9"
proof -
  from solved_units(2) [OF assms(1,2)] have "set (row_values t r) = {1..9}"
    by (simp add: permutation_1_9_def)
  moreover have "value_at t r c \<in> set (row_values t r)"
    using assms(3) by (metis row_values_nth length_row_values nth_mem)
  ultimately show ?thesis by simp
qed

lemma solved_peers:
  assumes "solved t" "r < 9" "c < 9" "r' < 9" "c' < 9" "peer r c r' c'"
  shows "value_at t r c \<noteq> value_at t r' c'"
proof -
  from assms(6) consider (row) "r' = r" "c' \<noteq> c" | (col) "c' = c" "r' \<noteq> r"
    | (box) "r' div 3 = r div 3" "c' div 3 = c div 3" "r' \<noteq> r \<or> c' \<noteq> c"
    unfolding peer_def prod.inject by metis
  then show ?thesis
  proof cases
    case row
    from solved_units(2) [OF assms(1,2)] have "distinct (row_values t r)"
      by (simp add: permutation_1_9_def)
    with row assms(3,5) have "row_values t r ! c \<noteq> row_values t r ! c'"
      by (simp add: nth_eq_iff_index_eq)
    with row assms(3,5) show ?thesis by (simp add: row_values_nth)
  next
    case col
    from solved_units(3) [OF assms(1,3)] have "distinct (col_values t c)"
      by (simp add: permutation_1_9_def)
    with col assms(2,4) have "col_values t c ! r \<noteq> col_values t c ! r'"
      by (simp add: nth_eq_iff_index_eq)
    with col assms(2,4) show ?thesis by (simp add: col_values_nth)
  next
    case box
    define b where "b = 3 * (r div 3) + c div 3"
    define k where "k = 3 * (r mod 3) + c mod 3"
    define k' where "k' = 3 * (r' mod 3) + c' mod 3"
    have b': "b = 3 * (r' div 3) + c' div 3" using box by (simp add: b_def)
    note i = box_index [OF assms(2,3), folded b_def k_def]
    note i' = box_index [OF assms(4,5), folded b' k'_def]
    from solved_units(4) [OF assms(1) i(1)] have "distinct (box_values t b)"
      by (simp add: permutation_1_9_def)
    moreover have "k \<noteq> k'" using box(3) i(3,4) i'(3,4) by metis
    ultimately have "box_values t b ! k \<noteq> box_values t b ! k'"
      using i(2) i'(2) by (simp add: nth_eq_iff_index_eq)
    then show ?thesis
      using i i' by (simp add: box_values_nth)
  qed
qed

lemma fills_nth:
  assumes "fills s t"
  shows "length (grid t) = length (grid s)"
    and "\<And>i. i < length (grid s) \<Longrightarrow> ctype (grid t ! i) = ctype (grid s ! i)"
    and "\<And>i. i < length (grid s) \<Longrightarrow> cvalue (grid s ! i) \<noteq> V_None \<Longrightarrow>
            cvalue (grid t ! i) = cvalue (grid s ! i)"
  using assms by (auto simp: fills_def list_all2_conv_all_nth)

lemma cell_index: 
  fixes r c :: nat
  shows "r < 9 \<Longrightarrow> c < 9 \<Longrightarrow> r * 9 + c < 81"
  by simp

lemma fills_value_at:
  assumes "fills s t" "grid9 s" "r < 9" "c < 9" "value_at s r c \<noteq> V_None"
  shows "value_at t r c = value_at s r c"
  using assms fills_nth(3) [OF assms(1), of "r * 9 + c"] cell_index [of r c]
  by (simp add: value_at_def grid9_def fills_def)

text \<open>A value that some completion puts in an empty cell passes the check.\<close>

lemma completion_is_valid:
  assumes "grid9 s" "fills s t" "solved t" "row < 9" "col < 9"
  shows "is_valid s row col (value_at t row col)"
  unfolding is_valid_peers [OF assms(1,4,5)]
proof (intro allI impI)
  fix r' c' assume b: "r' < 9" "c' < 9" and p: "peer row col r' c'"
  from solved_peers [OF assms(3,4,5) b p]
  have ne: "value_at t row col \<noteq> value_at t r' c'" .
  show "value_at s r' c' \<noteq> value_at t row col"
  proof (cases "value_at s r' c' = V_None")
    case True
    with solved_value_range [OF assms(3,4,5)] show ?thesis by simp
  next
    case False
    from fills_value_at [OF assms(2,1) b False] ne show ?thesis by simp
  qed
qed


lemma cell_index_inj:
  fixes r c r' c' :: nat
  assumes "c < 9" "c' < 9"
  shows "r * 9 + c = r' * 9 + c' \<longleftrightarrow> r = r' \<and> c = c'"
proof
  assume e: "r * 9 + c = r' * 9 + c'"
  then have "(r * 9 + c) div 9 = (r' * 9 + c') div 9" "(r * 9 + c) mod 9 = (r' * 9 + c') mod 9"
    by simp_all
  with assms show "r = r' \<and> c = c'" by simp
qed simp

lemma grid9_set_value [simp]: "grid9 (set_value s i v) = grid9 s"
  by (simp add: grid9_def)

lemma value_at_set_value:
  assumes "grid9 s" "r < 9" "c < 9" "r' < 9" "c' < 9"
  shows "value_at (set_value s (r * 9 + c) v) r' c' =
           (if r' = r \<and> c' = c then v else value_at s r' c')"
  using assms cell_index [of r c] cell_index_inj [of c' c r' r]
  by (auto simp: value_at_def set_value_def grid9_def)

lemma value_at_nth:
  "grid9 s \<Longrightarrow> i < 81 \<Longrightarrow> cvalue (grid s ! i) = value_at s (i div 9) (i mod 9)"
  by (simp add: value_at_def grid9_def)

text \<open>The completions of the grid with one more cell filled.\<close>

lemma fills_set_value:
  assumes "i < length (grid s)" "cvalue (grid s ! i) = V_None" "v \<noteq> V_None"
  shows "fills (set_value s i v) t \<longleftrightarrow> fills s t \<and> cvalue (grid t ! i) = v"
proof -
  have "\<And>j. j < length (grid s) \<Longrightarrow>
      (ctype (grid t ! j) = ctype (grid (set_value s i v) ! j) \<and>
       (cvalue (grid (set_value s i v) ! j) = V_None \<or>
        cvalue (grid t ! j) = cvalue (grid (set_value s i v) ! j)))
      = (ctype (grid t ! j) = ctype (grid s ! j) \<and>
         (cvalue (grid s ! j) = V_None \<or> cvalue (grid t ! j) = cvalue (grid s ! j)) \<and>
         (j = i \<longrightarrow> cvalue (grid t ! i) = v))"
    using assms by (auto simp: set_value_def nth_list_update)
  then show ?thesis
    using assms(1) by (auto simp: fills_def list_all2_conv_all_nth)
qed

text \<open>The scan finds nothing only when every cell in the grid is filled.\<close>

lemma find_empty_None:
  "find_empty s r0 c0 = None \<Longrightarrow> r < rows s \<Longrightarrow> c < cols s \<Longrightarrow>
     r0 < r \<or> (r0 = r \<and> c0 \<le> c) \<Longrightarrow> cvalue (grid s ! (r * cols s + c)) \<noteq> V_None"
proof (induction s r0 c0 rule: find_empty.induct)
  case (1 s r0 c0)
  from "1.prems"(1) have r0: "r0 < rows s"
    using "1.prems"(2,4) by auto
  show ?case
  proof (cases "c0 < cols s")
    case False
    with r0 "1.prems"(1) have n: "find_empty s (r0 + 1) 0 = None"
      by (subst (asm) find_empty.simps) simp
    from False "1.prems"(3,4) have "r0 + 1 < r \<or> (r0 + 1 = r \<and> 0 \<le> c)" by auto
    from "1.IH"(2) [OF r0 False n "1.prems"(2,3) this] show ?thesis .
  next
    case True
    with r0 "1.prems"(1) have ne: "cvalue (grid s ! (r0 * cols s + c0)) \<noteq> V_None"
      and n: "find_empty s r0 (c0 + 1) = None"
      by (subst (asm) find_empty.simps, simp split: if_splits)+
    show ?thesis
    proof (cases "r = r0 \<and> c = c0")
      case True
      with ne show ?thesis by simp
    next
      case False
      with "1.prems"(4) have "r0 < r \<or> (r0 = r \<and> c0 + 1 \<le> c)" by auto
      from "1.IH"(1) [OF r0 True ne n "1.prems"(2,3) this] show ?thesis .
    qed
  qed
qed

lemma find_empty_None_full:
  assumes "grid9 s" "find_empty s 0 0 = None"
  shows "list_all (\<lambda>c. cvalue c \<noteq> V_None) (grid s)"
proof -
  have "\<And>i. i < 81 \<Longrightarrow> cvalue (grid s ! i) \<noteq> V_None"
  proof -
    fix i :: nat assume i: "i < 81"
    then have "i div 9 < 9" by simp
    with find_empty_None [OF assms(2), of "i div 9" "i mod 9"] assms(1)
    show "cvalue (grid s ! i) \<noteq> V_None" by (auto simp: grid9_def)
  qed
  with assms(1) show ?thesis by (simp add: list_all_length grid9_def)
qed

text \<open>A grid without empty cells is filled by itself only.\<close>

lemma fills_full:
  assumes "list_all (\<lambda>c. cvalue c \<noteq> V_None) (grid s)"
  shows "fills s t \<longleftrightarrow> t = s"
proof
  assume f: "fills s t"
  have "grid t = grid s"
  proof (rule nth_equalityI)
    show "length (grid t) = length (grid s)" using fills_nth(1) [OF f] .
  next
    fix i assume "i < length (grid t)"
    then have i: "i < length (grid s)" using fills_nth(1) [OF f] by simp
    with assms have "cvalue (grid s ! i) \<noteq> V_None" by (simp add: list_all_length)
    from fills_nth(2) [OF f i] fills_nth(3) [OF f i this] show "grid t ! i = grid s ! i"
      by simp
  qed
  with f show "t = s" by (simp add: fills_def)
next
  assume "t = s"
  then show "fills s t" by (simp add: fills_def list_all2_conv_all_nth)
qed


lemma peer_sym: "peer r c r' c' \<Longrightarrow> peer r' c' r c"
  unfolding peer_def prod.inject by metis

text \<open>Placing a checked value in an empty cell keeps the grid free of conflicts.\<close>

lemma consistent_set_value:
  assumes g: "grid9 s" and cs: "consistent s" and rc: "row < 9" "col < 9"
    and v: "1 \<le> v" "v \<le> 9" and ok: "is_valid s row col v"
  shows "consistent (set_value s (row * 9 + col) v)"
  unfolding consistent_def
proof (intro allI impI conjI)
  fix r c assume b: "r < (9::nat)" "c < (9::nat)"
  let ?s' = "set_value s (row * 9 + col) v"
  note va = value_at_set_value [OF g rc]
  from cs b have "value_at s r c \<le> 9" by (simp add: consistent_def)
  with v b show "value_at ?s' r c \<le> 9" by (simp add: va)
  fix r' c' assume b': "r' < (9::nat)" "c' < (9::nat)" and p: "peer r c r' c'"
    and nz: "value_at ?s' r c \<noteq> V_None"
  from ok have free: "\<And>r' c'. r' < 9 \<Longrightarrow> c' < 9 \<Longrightarrow> peer row col r' c' \<Longrightarrow> value_at s r' c' \<noteq> v"
    by (simp add: is_valid_peers [OF g rc])
  show "value_at ?s' r' c' \<noteq> value_at ?s' r c"
  proof (cases "r = row \<and> c = col")
    case True
    with p have "\<not> (r' = row \<and> c' = col)" by (auto simp: peer_def)
    with True free [OF b'] p b b' show ?thesis by (auto simp: va)
  next
    case False
    with nz b have nz': "value_at s r c \<noteq> V_None" by (simp add: va)
    show ?thesis
    proof (cases "r' = row \<and> c' = col")
      case True
      with free [OF b peer_sym] p False b b' show ?thesis by (auto simp: va)
    next
      case other: False
      from cs b nz' b' p have "value_at s r' c' \<noteq> value_at s r c"
        by (simp add: consistent_def)
      with False other b b' show ?thesis by (auto simp: va)
    qed
  qed
qed

lemma permutation_1_9_I:
  assumes "length xs = 9" "distinct xs" "\<And>x. x \<in> set xs \<Longrightarrow> 1 \<le> x \<and> x \<le> 9"
  shows "permutation_1_9 xs"
proof -
  have sub: "set xs \<subseteq> {1..9}" using assms(3) by auto
  have "card (set xs) = card {1..9::nat}"
    using assms(1,2) by (simp add: distinct_card)
  with sub have "set xs = {1..9}" by (intro card_subset_eq) simp_all
  with assms(2) show ?thesis by (simp add: permutation_1_9_def)
qed

lemma box_cell:
  fixes b k :: nat
  assumes "b < 9" "k < 9"
  shows "3 * (b div 3) + k div 3 < 9" "3 * (b mod 3) + k mod 3 < 9"
    "(3 * (b div 3) + k div 3) div 3 = b div 3" "(3 * (b mod 3) + k mod 3) div 3 = b mod 3"
    "(3 * (b div 3) + k div 3) mod 3 = k div 3" "(3 * (b mod 3) + k mod 3) mod 3 = k mod 3"
proof -
  have k: "k div 3 < 3" "k mod 3 < 3" and b: "b div 3 < 3" "b mod 3 < 3"
    using assms by simp_all
  show "3 * (b div 3) + k div 3 < 9" "3 * (b mod 3) + k mod 3 < 9"
    using k b by linarith+
  show "(3 * (b div 3) + k div 3) div 3 = b div 3" "(3 * (b mod 3) + k mod 3) div 3 = b mod 3"
    "(3 * (b div 3) + k div 3) mod 3 = k div 3" "(3 * (b mod 3) + k mod 3) mod 3 = k mod 3"
    using k by simp_all
qed

text \<open>A conflict-free grid without empty cells is solved.\<close>

lemma consistent_full_solved:
  assumes g: "grid9 s" and cs: "consistent s"
    and full: "list_all (\<lambda>c. cvalue c \<noteq> V_None) (grid s)"
  shows "solved s"
proof -
  have nz: "\<And>r c. r < 9 \<Longrightarrow> c < 9 \<Longrightarrow> value_at s r c \<noteq> V_None"
  proof -
    fix r c :: nat assume "r < 9" "c < 9"
    with cell_index [of r c] g full show "value_at s r c \<noteq> V_None"
      by (simp add: value_at_def grid9_def list_all_length)
  qed
  have rng: "\<And>r c. r < 9 \<Longrightarrow> c < 9 \<Longrightarrow> 1 \<le> value_at s r c \<and> value_at s r c \<le> 9"
    using nz cs by (simp add: consistent_def Suc_le_eq)
  have ne: "\<And>r c r' c'. r < 9 \<Longrightarrow> c < 9 \<Longrightarrow> r' < 9 \<Longrightarrow> c' < 9 \<Longrightarrow> peer r c r' c'
      \<Longrightarrow> value_at s r' c' \<noteq> value_at s r c"
    using nz cs by (simp add: consistent_def)
  have rowp: "permutation_1_9 (row_values s r)" if r: "r < 9" for r
  proof (rule permutation_1_9_I)
    show "distinct (row_values s r)"
      unfolding distinct_conv_nth
    proof (intro allI impI)
      fix i j assume "i < length (row_values s r)" "j < length (row_values s r)" "i \<noteq> j"
      then show "row_values s r ! i \<noteq> row_values s r ! j"
        using ne [of r j r i] r by (simp add: row_values_nth peer_def)
    qed
    show "\<And>x. x \<in> set (row_values s r) \<Longrightarrow> 1 \<le> x \<and> x \<le> 9"
      using rng [OF r] by (auto simp: row_values_def)
  qed simp
  have colp: "permutation_1_9 (col_values s c)" if c: "c < 9" for c
  proof (rule permutation_1_9_I)
    show "distinct (col_values s c)"
      unfolding distinct_conv_nth
    proof (intro allI impI)
      fix i j assume "i < length (col_values s c)" "j < length (col_values s c)" "i \<noteq> j"
      then show "col_values s c ! i \<noteq> col_values s c ! j"
        using ne [of j c i c] c by (simp add: col_values_nth peer_def)
    qed
    show "\<And>x. x \<in> set (col_values s c) \<Longrightarrow> 1 \<le> x \<and> x \<le> 9"
      using rng [OF _ c] by (auto simp: col_values_def)
  qed simp
  have boxp: "permutation_1_9 (box_values s b)" if b: "b < 9" for b
  proof (rule permutation_1_9_I)
    show "distinct (box_values s b)"
      unfolding distinct_conv_nth
    proof (intro allI impI)
      fix i j assume ij: "i < length (box_values s b)" "j < length (box_values s b)" "i \<noteq> j"
      then have i: "i < 9" and j: "j < 9" by simp_all
      note ci = box_cell [OF b i] and cj = box_cell [OF b j]
      have "\<not> (3 * (b div 3) + i div 3 = 3 * (b div 3) + j div 3 \<and>
                3 * (b mod 3) + i mod 3 = 3 * (b mod 3) + j mod 3)"
        using ij(3) by (metis add_left_cancel mult_div_mod_eq nat_mult_eq_cancel_disj zero_neq_numeral)
      with ci cj have "peer (3 * (b div 3) + j div 3) (3 * (b mod 3) + j mod 3)
          (3 * (b div 3) + i div 3) (3 * (b mod 3) + i mod 3)"
        unfolding peer_def prod.inject by metis
      from ne [OF cj(1,2) ci(1,2) this] i j
      show "box_values s b ! i \<noteq> box_values s b ! j"
        by (simp add: box_values_nth)
    qed
    show "\<And>x. x \<in> set (box_values s b) \<Longrightarrow> 1 \<le> x \<and> x \<le> 9"
    proof -
      fix x assume "x \<in> set (box_values s b)"
      then obtain k where k: "k < 9" "x = value_at s (3 * (b div 3) + k div 3) (3 * (b mod 3) + k mod 3)"
        by (auto simp: box_values_def)
      with rng [OF box_cell(1,2) [OF b k(1)]] show "1 \<le> x \<and> x \<le> 9" by simp
    qed
  qed simp
  from g full rowp colp boxp show ?thesis
    by (simp add: solved_def list_all_upt9)
qed

lemma solved_cells_le9:
  assumes "solved t" "c \<in> set (grid t)"
  shows "cvalue c \<le> 9"
proof -
  from assms(2) obtain i where i: "i < length (grid t)" "c = grid t ! i"
    by (auto simp: in_set_conv_nth)
  from solved_units(1) [OF assms(1)] i(1) have i81: "i < 81" by (simp add: grid9_def)
  then have "i div 9 < 9" "i mod 9 < 9" by simp_all
  from solved_value_range [OF assms(1) this]
  have "value_at t (i div 9) (i mod 9) \<le> 9" by simp
  then show ?thesis
    unfolding i(2) value_at_nth [OF solved_units(1) [OF assms(1)] i81] .
qed


lemma finite_cells: "finite {c::Cell. cvalue c \<le> 9}"
proof -
  have "{c::Cell. cvalue c \<le> 9} \<subseteq> (\<lambda>(v, ty). \<lparr>cvalue = v, ctype = ty\<rparr>) ` ({..9} \<times> {FIXED, DYNAMIC})"
  proof
    fix c :: Cell assume "c \<in> {c. cvalue c \<le> 9}"
    moreover have "ctype c \<in> {FIXED, DYNAMIC}" by (cases "ctype c") simp_all
    moreover have "c = \<lparr>cvalue = cvalue c, ctype = ctype c\<rparr>" by simp
    ultimately show "c \<in> (\<lambda>(v, ty). \<lparr>cvalue = v, ctype = ty\<rparr>) ` ({..9} \<times> {FIXED, DYNAMIC})"
      by (intro image_eqI [of _ _ "(cvalue c, ctype c)"]) simp_all
  qed
  then show ?thesis by (rule finite_subset) simp
qed

lemma finite_completions: "finite (completions s)"
proof -
  let ?L = "{xs. set xs \<subseteq> {c::Cell. cvalue c \<le> 9} \<and> length xs = 81}"
  have finL: "finite ?L" using finite_cells by (rule finite_lists_length_eq)
  have sub: "completions s \<subseteq> (\<lambda>xs. \<lparr>rows = 9, cols = 9, grid = xs\<rparr>) ` ?L"
  proof
    fix t assume "t \<in> completions s"
    then have st: "solved t" by (simp add: completions_def)
    from solved_units(1) [OF st] have d: "rows t = 9" "cols t = 9" "length (grid t) = 81"
      by (simp_all add: grid9_def)
    have eq: "t = \<lparr>rows = 9, cols = 9, grid = grid t\<rparr>"
      by (rule Sudoku.equality) (simp_all add: d)
    have "set (grid t) \<subseteq> {c. cvalue c \<le> 9}"
      using solved_cells_le9 [OF st] by blast
    with d(3) have mem: "grid t \<in> ?L" by blast
    from eq mem show "t \<in> (\<lambda>xs. \<lparr>rows = 9, cols = 9, grid = xs\<rparr>) ` ?L"
      by (rule image_eqI)
  qed
  from finite_subset [OF sub finite_imageI [OF finL]] show ?thesis .
qed

lemma completions_set_value:
  assumes g: "grid9 s" and rc: "row < 9" "col < 9" and e: "value_at s row col = V_None"
    and v: "v \<noteq> V_None"
  shows "completions (set_value s (row * 9 + col) v) =
           {t \<in> completions s. value_at t row col = v}"
proof -
  from g rc cell_index [OF rc] e have i: "row * 9 + col < length (grid s)"
    "cvalue (grid s ! (row * 9 + col)) = V_None"
    by (simp_all add: grid9_def value_at_def)
  have "\<And>t. solved t \<Longrightarrow> cvalue (grid t ! (row * 9 + col)) = value_at t row col"
    using solved_units(1) by (simp add: value_at_def grid9_def)
  then show ?thesis
    by (auto simp: completions_def fills_set_value [OF i v])
qed


lemma completions_invalid:
  assumes g: "grid9 s" and rc: "row < 9" "col < 9" and e: "value_at s row col = V_None"
    and v: "v \<noteq> V_None" and bad: "\<not> is_valid s row col v"
  shows "completions (set_value s (row * 9 + col) v) = {}"
proof (rule equals0I)
  fix t assume "t \<in> completions (set_value s (row * 9 + col) v)"
  then have "t \<in> completions s" "value_at t row col = v"
    by (simp_all add: completions_set_value [OF g rc e v])
  then have "fills s t" "solved t" "value_at t row col = v"
    by (simp_all add: completions_def)
  with completion_is_valid [OF g _ _ rc, of t] bad show False by simp
qed


lemma card_completions_split:
  assumes g: "grid9 s" and rc: "row < 9" "col < 9" and e: "value_at s row col = V_None"
  shows "card (completions s) = (\<Sum>v = 1..9. card (completions (set_value s (row * 9 + col) v)))"
proof -
  define C where "C v = {t \<in> completions s. value_at t row col = v}" for v
  have fin: "\<And>v. finite (C v)"
    unfolding C_def using finite_completions [of s] by simp
  have dis: "\<And>v w. v \<noteq> w \<Longrightarrow> C v \<inter> C w = {}"
    unfolding C_def by blast
  have "\<And>t. t \<in> completions s \<Longrightarrow> value_at t row col \<in> {1..9}"
    using solved_value_range [OF _ rc] by (simp add: completions_def)
  then have "completions s = (\<Union>v\<in>{1..9}. C v)"
    unfolding C_def by blast
  then have "card (completions s) = card (\<Union>v\<in>{1..9}. C v)" by simp
  also have "\<dots> = (\<Sum>v\<in>{1..9}. card (C v))"
    using fin dis by (intro card_UN_disjoint) blast+
  also have "\<dots> = (\<Sum>v = 1..9. card (completions (set_value s (row * 9 + col) v)))"
  proof (rule sum.cong)
    fix v :: nat assume "v \<in> {1..9}"
    then have "v \<noteq> V_None" by simp
    from completions_set_value [OF g rc e this]
    show "card (C v) = card (completions (set_value s (row * 9 + col) v))"
      by (simp add: C_def)
  qed simp
  finally show ?thesis .
qed

lemma completions_full:
  assumes "grid9 s" "consistent s" "find_empty s 0 0 = None"
  shows "completions s = {s}"
proof -
  note full = find_empty_None_full [OF assms(1,3)]
  from consistent_full_solved [OF assms(1,2) full] show ?thesis
    by (auto simp: completions_def fills_full [OF full])
qed

lemma count_solutions_bounds:
  "grid9 s \<Longrightarrow> consistent s \<Longrightarrow>
     0 \<le> snd (count_solutions s limit) \<and>
     snd (count_solutions s limit) \<le> int (card (completions s)) \<and>
     (snd (count_solutions s limit) < limit \<longrightarrow>
        snd (count_solutions s limit) = int (card (completions s)))"
  "grid9 s \<Longrightarrow> consistent s \<Longrightarrow> row < 9 \<Longrightarrow> col < 9 \<Longrightarrow> i = row * 9 + col \<Longrightarrow>
   value_at s row col = V_None \<Longrightarrow> 1 \<le> val \<Longrightarrow> 0 \<le> found \<Longrightarrow>
     found \<le> snd (try_values s limit row col i val found) \<and>
     snd (try_values s limit row col i val found)
       \<le> found + int (\<Sum>v = val..9. card (completions (set_value s i v))) \<and>
     (snd (try_values s limit row col i val found) < limit \<longrightarrow>
        snd (try_values s limit row col i val found)
          = found + int (\<Sum>v = val..9. card (completions (set_value s i v))))"
proof (induction s limit and s limit row col i val found rule: count_solutions_try_values.induct)
  case (1 s limit)
  note g = "1.prems"(1) and cs = "1.prems"(2)
  show ?case
  proof (cases "find_empty s 0 0")
    case None
    then have "count_solutions s limit = (s, 1)" by (simp add: count_solutions.simps)
    with completions_full [OF g cs None] show ?thesis by simp
  next
    case (Some rc)
    obtain row col where rc: "rc = (row, col)" by (cases rc)
    from find_empty_Some [of s 0 0 row col] Some rc g
    have b: "row < 9" "col < 9" and e: "value_at s row col = V_None"
      by (simp_all add: grid9_def value_at_def)
    from g have c9: "cols s = 9" by (simp add: grid9_def)
    have eq: "count_solutions s limit = try_values s limit row col (row * 9 + col) 1 0"
      using Some rc c9 by (simp add: count_solutions.simps)
    from "1.IH" [OF Some rc [symmetric] g cs b _ e] c9
    have "0 \<le> snd (try_values s limit row col (row * 9 + col) 1 0) \<and>
      snd (try_values s limit row col (row * 9 + col) 1 0)
        \<le> 0 + int (\<Sum>v = 1..9. card (completions (set_value s (row * 9 + col) v))) \<and>
      (snd (try_values s limit row col (row * 9 + col) 1 0) < limit \<longrightarrow>
        snd (try_values s limit row col (row * 9 + col) 1 0)
          = 0 + int (\<Sum>v = 1..9. card (completions (set_value s (row * 9 + col) v))))"
      by simp
    then show ?thesis
      unfolding eq card_completions_split [OF g b e] by simp
  qed
next
  case (2 s limit row col i val found)
  note g = "2.prems"(1) and cs = "2.prems"(2) and b = "2.prems"(3,4) and i = "2.prems"(5)
    and e = "2.prems"(6) and v1 = "2.prems"(7) and f0 = "2.prems"(8)
  let ?C = "\<lambda>v. card (completions (set_value s i v))"
  from g b cell_index [OF b] i have il: "i < length (grid s)" by (simp add: grid9_def)
  from e i g have ei: "cvalue (grid s ! i) = V_None" by (simp add: value_at_def grid9_def)
  show ?case
  proof (cases "val \<le> 9")
    case False
    then have "try_values s limit row col i val found = (s, found)"
      by (subst try_values.simps) simp
    with False show ?thesis by simp
  next
    case le: True
    define T' where "T' = (\<Sum>v = val + 1..9. ?C v)"
    from le have sum: "(\<Sum>v = val..9. ?C v) = ?C val + T'"
      by (simp add: sum.atLeast_Suc_atMost T'_def)
    from v1 have vnz: "val \<noteq> V_None" by simp
    show ?thesis
    proof (cases "is_valid s row col val")
      case False
      then have eq: "try_values s limit row col i val found
          = try_values s limit row col i (val + 1) found"
        using le by (subst try_values.simps) simp
      from completions_invalid [OF g b e vnz False] i have "?C val = 0" by simp
      with "2.IH"(3) [OF le False g cs b i e _ f0, folded T'_def] show ?thesis
        unfolding eq sum by simp
    next
      case ok: True
      obtain s1 n where r: "count_solutions (set_value s i val) limit = (s1, n)"
        by (cases "count_solutions (set_value s i val) limit")
      from count_solutions_frame_dom(1) [OF count_solutions_total(1), of "set_value s i val" limit] r
      have s1: "s1 = set_value s i val" by simp
      have undo: "set_value s1 i V_None = s"
        unfolding s1 using ei by (simp add: set_value_same)
      from consistent_set_value [OF g cs b _ le ok] v1 i
      have cs': "consistent (set_value s i val)" by simp
      from "2.IH"(1) [OF le ok il _ cs'] g r
      have n: "0 \<le> n" "n \<le> int (?C val)" "n < limit \<longrightarrow> n = int (?C val)"
        by simp_all
      show ?thesis
      proof (cases "limit \<le> found + n")
        case True
        then have "try_values s limit row col i val found = (s, found + n)"
          using le ok il r undo by (subst try_values.simps) simp
        with True n f0 show ?thesis unfolding sum by simp
      next
        case False
        then have eq: "try_values s limit row col i val found
            = try_values s limit row col i (val + 1) (found + n)"
          using le ok il r undo by (subst try_values.simps) simp
        from False f0 n have nC: "n = int (?C val)" by simp
        from "2.IH"(2) [OF le ok il r [symmetric] refl refl False, unfolded undo,
            OF g cs b i e] f0 n(1)
        have "found + n \<le> snd (try_values s limit row col i (val + 1) (found + n)) \<and>
          snd (try_values s limit row col i (val + 1) (found + n))
            \<le> found + n + int T' \<and>
          (snd (try_values s limit row col i (val + 1) (found + n)) < limit \<longrightarrow>
            snd (try_values s limit row col i (val + 1) (found + n))
              = found + n + int T')"
          unfolding T'_def by simp
        with nC n(1) show ?thesis unfolding eq sum by (simp add: add.assoc)
      qed
    qed
  qed
qed

section \<open>The counter as an oracle; the copy made by \<^verbatim>\<open>has_unique_solution\<close>\<close>

lemma has_unique_solution_heap: "snd (has_unique_solution h p) = h @ [None]"
  by (simp add: has_unique_solution_def game_open_def memcpy_def store_def game_close_def
      split_def Let_def)

lemma cells_append:
  "ref_grid p = Some a \<Longrightarrow> a < length h \<Longrightarrow> cells (h @ h') p = cells h p"
  by (simp add: cells_def nth_append)

lemma cells_fresh:
  "ref_grid q = Some (length h) \<Longrightarrow> cells (h @ [Some cs]) q = cs"
  by (simp add: cells_def)

lemma store_fresh:
  "ref_grid q = Some (length h) \<Longrightarrow> store (h @ [Some cs]) q cs' = h @ [Some cs']"
  by (simp add: store_def)

lemma has_unique_solution_result:
  assumes "live h p"
  shows "fst (has_unique_solution h p) \<longleftrightarrow> snd (count_solutions (load h p) 2) = 1"
proof -
  from assms obtain a where a: "ref_grid p = Some a" "a < length h"
    and len: "length (cells h p) = ref_rows p * ref_cols p"
    by (auto simp: live_def split: option.splits)
  let ?z = "replicate (ref_rows p * ref_cols p) \<lparr>cvalue = V_None, ctype = FIXED\<rparr>"
  let ?copy = "\<lparr>ref_rows = ref_rows p, ref_cols = ref_cols p, ref_grid = Some (length h)\<rparr>"
  have c: "cells (h @ [Some ?z]) p = cells h p" using a by (rule cells_append)
  have q: "ref_grid ?copy = Some (length h)" by simp
  have "memcpy (h @ [Some ?z]) ?copy p (ref_rows p * ref_cols p) = h @ [Some (cells h p)]"
    unfolding memcpy_def c cells_fresh [OF q] using len by (simp add: store_fresh [OF q])
  then have "load (memcpy (h @ [Some ?z]) ?copy p (ref_rows p * ref_cols p)) ?copy = load h p"
    by (simp add: load_def cells_fresh [OF q])
  then show ?thesis
    by (simp add: has_unique_solution_def game_open_def split_def Let_def)
qed

lemma find_empty_full:
  assumes "grid9 s" "list_all (\<lambda>c. cvalue c \<noteq> V_None) (grid s)"
  shows "find_empty s 0 0 = None"
proof (cases "find_empty s 0 0")
  case (Some rc)
  obtain row col where rc: "rc = (row, col)" by (cases rc)
  from find_empty_Some [of s 0 0 row col] Some rc assms(1)
  have b: "row < 9" "col < 9" "cvalue (grid s ! (row * 9 + col)) = V_None"
    by (simp_all add: grid9_def)
  from cell_index [OF b(1,2)] assms have "cvalue (grid s ! (row * 9 + col)) \<noteq> V_None"
    by (simp add: list_all_length grid9_def)
  with b(3) show ?thesis by simp
qed simp

lemma count_solutions_full:
  assumes "grid9 s" "list_all (\<lambda>c. cvalue c \<noteq> V_None) (grid s)"
  shows "count_solutions s limit = (s, 1)"
  using find_empty_full [OF assms] by (simp add: count_solutions.simps)

lemma unique_iff_card: "finite A \<Longrightarrow> (\<exists>!t. t \<in> A) \<longleftrightarrow> card A = 1"
  by (auto simp: card_1_singleton_iff)

lemma two_iff_card:
  assumes "finite A"
  shows "(\<exists>t u. t \<in> A \<and> u \<in> A \<and> t \<noteq> u) \<longleftrightarrow> 2 \<le> card A"
proof -
  have "card A \<le> Suc 0 \<longleftrightarrow> (\<forall>a\<in>A. \<forall>b\<in>A. a = b)"
    using assms by (rule card_le_Suc0_iff_eq)
  then show ?thesis by auto
qed

lemma count_solutions_limit_2:
  assumes "grid9 s" "consistent s"
  shows "(snd (count_solutions s 2) = 0 \<longleftrightarrow> completions s = {}) \<and>
         (snd (count_solutions s 2) = 1 \<longleftrightarrow> (\<exists>!t. t \<in> completions s)) \<and>
         (snd (count_solutions s 2) \<ge> 2 \<longleftrightarrow>
            (\<exists>t u. t \<in> completions s \<and> u \<in> completions s \<and> t \<noteq> u))"
proof -
  define n where "n = snd (count_solutions s 2)"
  define k where "k = card (completions s)"
  from count_solutions_bounds(1) [OF assms, of 2]
  have b: "0 \<le> n" "n \<le> int k" "n < 2 \<longrightarrow> n = int k"
    by (simp_all add: n_def k_def)
  note fin = finite_completions [of s]
  have "completions s = {} \<longleftrightarrow> k = 0" using fin by (simp add: k_def)
  moreover have "(\<exists>!t. t \<in> completions s) \<longleftrightarrow> k = 1"
    using unique_iff_card [OF fin] by (simp add: k_def)
  moreover have "(\<exists>t u. t \<in> completions s \<and> u \<in> completions s \<and> t \<noteq> u) \<longleftrightarrow> 2 \<le> k"
    using two_iff_card [OF fin] by (simp add: k_def)
  moreover from b have "n = 0 \<longleftrightarrow> k = 0" "n = 1 \<longleftrightarrow> k = 1" "2 \<le> n \<longleftrightarrow> 2 \<le> k"
    by auto
  ultimately show ?thesis unfolding n_def [symmetric] by simp
qed

lemma completion_consistent:
  assumes g: "grid9 s" and f: "fills s t" and st: "solved t"
  shows "consistent s"
  unfolding consistent_def
proof (intro allI impI conjI)
  fix r c assume b: "r < (9::nat)" "c < (9::nat)"
  show "value_at s r c \<le> 9"
  proof (cases "value_at s r c = V_None")
    case False
    from fills_value_at [OF f g b False] solved_value_range [OF st b] show ?thesis by simp
  qed simp
  fix r' c' assume b': "r' < (9::nat)" "c' < (9::nat)" and p: "peer r c r' c'"
    and nz: "value_at s r c \<noteq> V_None"
  note eq = fills_value_at [OF f g b nz]
  show "value_at s r' c' \<noteq> value_at s r c"
  proof (cases "value_at s r' c' = V_None")
    case True
    with nz show ?thesis by simp
  next
    case False
    from fills_value_at [OF f g b' False] eq solved_peers [OF st b b' p]
    show ?thesis by simp
  qed
qed

lemma solved_solved_example: "solved solved_example"
  by code_simp

lemma fills_three_solutions_example: "fills three_solutions_example solved_example"
  by code_simp

lemma grid9_conflict_example: "grid9 conflict_example"
  by (simp add: conflict_example_def solved_example_def grid9_def cells_of_def solved_values_def)

lemma count_conflict_example: "snd (count_solutions conflict_example 2) = 1"
  by code_simp

lemma conflict_example_facts:
  "list_all (\<lambda>c. cvalue c \<noteq> V_None) (grid conflict_example)" "\<not> solved conflict_example"
  by code_simp+

lemma grid9_solved_example: "grid9 solved_example"
  by (simp add: grid9_def solved_example_def cells_of_def solved_values_def)


section \<open>Values and types\<close>

lemma same_values_refl [simp]: "same_values s s"
  by (simp add: same_values_def)

lemma same_values_sym: "same_values s s' \<Longrightarrow> same_values s' s"
  by (simp add: same_values_def)

lemma same_values_nth:
  assumes "same_values s s'" "i < length (grid s)"
  shows "cvalue (grid s ! i) = cvalue (grid s' ! i)"
proof -
  from assms(1) have e: "map cvalue (grid s) = map cvalue (grid s')"
    by (simp add: same_values_def)
  then have "length (grid s) = length (grid s')" by (metis length_map)
  with assms(2) e show ?thesis by (metis nth_map)
qed

lemma same_values_grid9: "same_values s s' \<Longrightarrow> grid9 s \<Longrightarrow> grid9 s'"
  by (metis grid9_def same_values_def length_map)

lemma same_values_value_at:
  assumes "same_values s s'" "grid9 s" "r < 9" "c < 9"
  shows "value_at s r c = value_at s' r c"
  using same_values_nth [OF assms(1), of "r * 9 + c"] cell_index [OF assms(3,4)] assms(1,2)
  by (simp add: value_at_def grid9_def same_values_def)

lemma same_values_is_valid:
  assumes "same_values s s'" "grid9 s" "row < 9" "col < 9"
  shows "is_valid s row col val = is_valid s' row col val"
  unfolding is_valid_peers [OF assms(2,3,4)]
    is_valid_peers [OF same_values_grid9 [OF assms(1,2)] assms(3,4)]
  using same_values_value_at [OF assms(1,2)] by auto

lemma same_values_set_value:
  "same_values s s' \<Longrightarrow> same_values (set_value s i v) (set_value s' i v)"
  by (auto simp: same_values_def set_value_def map_update dest: map_eq_imp_length_eq)

lemma same_values_find_empty:
  "same_values s s' \<Longrightarrow> grid9 s \<Longrightarrow> c0 \<le> 9 \<Longrightarrow> find_empty s r0 c0 = find_empty s' r0 c0"
proof (induction s r0 c0 rule: find_empty.induct)
  case (1 s row col)
  note sv = "1.prems"(1) and g = "1.prems"(2)
  from sv g have d: "rows s = 9" "cols s = 9" "rows s' = 9" "cols s' = 9"
    by (simp_all add: same_values_def grid9_def)
  show ?case
  proof (cases "row < 9")
    case False
    with d show ?thesis
      by (simp add: find_empty.simps [of s row col] find_empty.simps [of s' row col])
  next
    case r: True
    show ?thesis
    proof (cases "col < 9")
      case False
      with r d "1.IH"(2) [OF _ _ sv g] show ?thesis
        by (simp add: find_empty.simps [of s row col] find_empty.simps [of s' row col])
    next
      case c: True
      from same_values_value_at [OF sv g r c] d
      have e: "cvalue (grid s ! (row * 9 + col)) = cvalue (grid s' ! (row * 9 + col))"
        by (simp add: value_at_def)
      show ?thesis
      proof (cases "cvalue (grid s ! (row * 9 + col)) = V_None")
        case True
        with e r c d show ?thesis
          by (simp add: find_empty.simps [of s row col] find_empty.simps [of s' row col])
      next
        case False
        with e r c d "1.IH"(1) [OF _ _ _ sv g] show ?thesis
          by (simp add: find_empty.simps [of s row col] find_empty.simps [of s' row col])
      qed
    qed
  qed
qed

lemma same_values_count:
  "same_values s s' \<Longrightarrow> grid9 s \<Longrightarrow>
     snd (count_solutions s limit) = snd (count_solutions s' limit)"
  "same_values s s' \<Longrightarrow> grid9 s \<Longrightarrow> row < 9 \<Longrightarrow> col < 9 \<Longrightarrow> i = row * 9 + col \<Longrightarrow>
   cvalue (grid s ! i) = V_None \<Longrightarrow>
     snd (try_values s limit row col i val found) = snd (try_values s' limit row col i val found)"
proof (induction s limit and s limit row col i val found arbitrary: s' and s'
    rule: count_solutions_try_values.induct)
  case (1 s limit)
  note sv = "1.prems"(1) and g = "1.prems"(2)
  from sv g have d: "cols s = 9" "cols s' = 9" by (simp_all add: same_values_def grid9_def)
  note fe = same_values_find_empty [OF sv g, of 0 0]
  show ?case
  proof (cases "find_empty s 0 0")
    case None
    with fe show ?thesis by (simp add: count_solutions.simps)
  next
    case (Some rc)
    obtain row col where rc: "rc = (row, col)" by (cases rc)
    from find_empty_Some [of s 0 0 row col] Some rc g
    have b: "row < 9" "col < 9" and e: "cvalue (grid s ! (row * 9 + col)) = V_None"
      by (simp_all add: grid9_def)
    from "1.IH" [OF Some rc [symmetric] sv g b] d e Some rc fe show ?thesis
      by (simp add: count_solutions.simps)
  qed
next
  case (2 s limit row col i val found)
  note sv = "2.prems"(1) and g = "2.prems"(2) and b = "2.prems"(3,4) and i = "2.prems"(5)
    and e = "2.prems"(6)
  note g' = same_values_grid9 [OF sv g]
  from g g' cell_index [OF b] i have il: "i < length (grid s)" "i < length (grid s')"
    by (simp_all add: grid9_def)
  from same_values_nth [OF sv il(1)] e have e': "cvalue (grid s' ! i) = V_None" by simp
  note iv = same_values_is_valid [OF sv g b, of val]
  show ?case
  proof (cases "val \<le> 9")
    case False
    then show ?thesis
      by (simp add: try_values.simps [of s] try_values.simps [of s'])
  next
    case le: True
    show ?thesis
    proof (cases "is_valid s row col val")
      case False
      with le iv "2.IH"(3) [OF le False sv g b i e] show ?thesis
        by (simp add: try_values.simps [of s _ _ _ _ val] try_values.simps [of s' _ _ _ _ val])
    next
      case ok: True
      let ?s1 = "set_value s i val" and ?s1' = "set_value s' i val"
      obtain n where r: "count_solutions ?s1 limit = (?s1, n)"
        using count_solutions_frame_dom(1) [OF count_solutions_total(1), of ?s1 limit]
        by (cases "count_solutions ?s1 limit") simp
      obtain n' where r': "count_solutions ?s1' limit = (?s1', n')"
        using count_solutions_frame_dom(1) [OF count_solutions_total(1), of ?s1' limit]
        by (cases "count_solutions ?s1' limit") simp
      from "2.IH"(1) [OF le ok il(1) same_values_set_value [OF sv]] g r r'
      have nn: "n' = n" by simp
      have undo: "set_value ?s1 i V_None = s" "set_value ?s1' i V_None = s'"
        using e e' by (simp_all add: set_value_same)
      show ?thesis
      proof (cases "limit \<le> found + n")
        case True
        with le ok iv il r r' nn undo show ?thesis
          by (simp add: try_values.simps [of s _ _ _ _ val] try_values.simps [of s' _ _ _ _ val])
      next
        case False
        from "2.IH"(2) [OF le ok il(1) r [symmetric] refl refl False, unfolded undo,
            OF sv g b i e]
        have "snd (try_values s limit row col i (val + 1) (found + n))
            = snd (try_values s' limit row col i (val + 1) (found + n))" .
        with False le ok iv il r r' nn undo show ?thesis
          by (simp add: try_values.simps [of s _ _ _ _ val] try_values.simps [of s' _ _ _ _ val])
      qed
    qed
  qed
qed

lemma same_values_solved:
  assumes sv: "same_values s s'" and st: "solved s"
  shows "solved s'"
proof -
  note g = solved_units(1) [OF st]
  note g' = same_values_grid9 [OF sv g]
  note va = same_values_value_at [OF sv g]
  have rv: "row_values s' r = row_values s r" if "r < 9" for r
    using that va by (simp add: row_values_def)
  have cv: "col_values s' c = col_values s c" if "c < 9" for c
    using that va by (simp add: col_values_def)
  have bv: "box_values s' b = box_values s b" if b: "b < 9" for b
    unfolding box_values_def
  proof (rule map_cong [OF refl])
    fix k assume "k \<in> set [0..<9]"
    then have k: "k < 9" by simp
    from va [OF box_cell(1,2) [OF b k]]
    show "value_at s' (3 * (b div 3) + k div 3) (3 * (b mod 3) + k mod 3)
        = value_at s (3 * (b div 3) + k div 3) (3 * (b mod 3) + k mod 3)" by simp
  qed
  have "list_all (\<lambda>c. cvalue c \<noteq> V_None) (grid s')"
    unfolding list_all_length
  proof (intro allI impI)
    fix n assume n: "n < length (grid s')"
    with g g' have n': "n < length (grid s)" by (simp add: grid9_def)
    with st have "cvalue (grid s ! n) \<noteq> V_None"
      by (simp add: solved_def list_all_length)
    with same_values_nth [OF sv n'] show "cvalue (grid s' ! n) \<noteq> V_None" by simp
  qed
  with st g' rv cv bv show ?thesis
    by (simp add: solved_def list_all_upt9)
qed

section \<open>The generator as a complete search\<close>

lemma shuffle_props:
  "length numbers = 9 \<Longrightarrow>
     length (fst (shuffle numbers i rng)) = 9 \<and> set (fst (shuffle numbers i rng)) = set numbers"
proof (induction numbers i rng rule: shuffle.induct)
  case (1 numbers i rng)
  show ?case
  proof (cases "i < 9")
    case False
    with "1.prems" show ?thesis by (simp add: shuffle.simps [of numbers i rng])
  next
    case True
    define j where "j = shd rng mod 9"
    define numbers' where "numbers' = numbers[i := numbers ! j, j := numbers ! i]"
    have j: "j < 9" by (simp add: j_def)
    from True j "1.prems" have s: "set numbers' = set numbers" "length numbers' = 9"
      by (simp_all add: numbers'_def set_swap)
    have eq: "shuffle numbers i rng = shuffle numbers' (i + 1) (stl rng)"
      using True by (subst shuffle.simps) (simp add: Let_def j_def numbers'_def)
    from "1.IH" [OF True j_def refl refl, folded numbers'_def, OF refl s(2)] s(1)
    show ?thesis unfolding eq by simp
  qed
qed

lemma grid_update_set_value [simp]: "(set_value s i v)\<lparr>grid := cs\<rparr> = s\<lparr>grid := cs\<rparr>"
  by (simp add: set_value_def)

lemma filled_upto_Suc:
  assumes "filled_upto s k" "v \<noteq> V_None" "k < length (grid s)"
  shows "filled_upto (set_value s k v) (k + 1)"
  using assms by (auto simp: filled_upto_def set_value_def nth_list_update)

lemma filled_upto_empty:
  assumes "filled_upto s k" "k < length (grid s)"
  shows "cvalue (grid s ! k) = V_None"
  using assms by (auto simp: filled_upto_def)

lemma filled_upto_full:
  assumes "filled_upto s (length (grid s))"
  shows "list_all (\<lambda>c. cvalue c \<noteq> V_None) (grid s)"
  using assms by (simp add: filled_upto_def list_all_length)

lemma no_completions:
  assumes g: "grid9 s" and rc: "row < 9" "col < 9" and e: "value_at s row col = V_None"
    and none: "\<And>v. 1 \<le> v \<Longrightarrow> v \<le> 9 \<Longrightarrow> completions (set_value s (row * 9 + col) v) = {}"
  shows "completions s = {}"
proof -
  have "card (completions s) = 0"
    unfolding card_completions_split [OF g rc e] using none by simp
  with finite_completions [of s] show ?thesis by simp
qed

lemma fill_grid_search:
  "grid9 s \<Longrightarrow> consistent s \<Longrightarrow> filled_upto s (row * 9 + col) \<Longrightarrow>
   (row < 9 \<and> col < 9) \<or> (row = 9 \<and> col = 0) \<Longrightarrow>
     search_sound s (fill_grid s row col rng) \<and>
     (\<not> fst (fill_grid s row col rng) \<longrightarrow> completions s = {})"
  "grid9 s \<Longrightarrow> consistent s \<Longrightarrow> filled_upto s (row * 9 + col) \<Longrightarrow> row < 9 \<Longrightarrow> col < 9 \<Longrightarrow>
   nextRow * 9 + nextCol = row * 9 + col + 1 \<Longrightarrow>
   (nextRow < 9 \<and> nextCol < 9) \<or> (nextRow = 9 \<and> nextCol = 0) \<Longrightarrow>
   length numbers = 9 \<Longrightarrow> (\<forall>x\<in>set numbers. 1 \<le> x \<and> x \<le> 9) \<Longrightarrow>
     search_sound s (try_numbers s row col nextRow nextCol numbers i rng) \<and>
     (\<not> fst (try_numbers s row col nextRow nextCol numbers i rng) \<longrightarrow>
        (\<forall>j. i \<le> j \<and> j < 9 \<longrightarrow> completions (set_value s (row * 9 + col) (numbers ! j)) = {}))"
proof (induction s row col rng and s row col nextRow nextCol numbers i rng
    rule: fill_grid_try_numbers.induct)
  case (1 s row col rng)
  note g = "1.prems"(1) and cs = "1.prems"(2) and fu = "1.prems"(3) and pos = "1.prems"(4)
  from g have d: "rows s = 9" "cols s = 9" "length (grid s) = 81" by (simp_all add: grid9_def)
  show ?case
  proof (cases "row = 9")
    case True
    with pos have "col = 0" by simp
    with True fu d have "filled_upto s (length (grid s))" by simp
    note sol = consistent_full_solved [OF g cs filled_upto_full [OF this]]
    have eq: "fill_grid s row col rng = (True, grid s, rng)"
      using True d by (subst fill_grid.simps) simp
    from sol show ?thesis unfolding eq by (simp add: search_sound_def)
  next
    case False
    with pos have b: "row < 9" "col < 9" by simp_all
    define nextRow where "nextRow = (if col = cols s - 1 then row + 1 else row)"
    define nextCol where "nextCol = (col + 1) mod cols s"
    define numbers where "numbers = fst (shuffle [1, 2, 3, 4, 5, 6, 7, 8, 9] 0 rng)"
    define rng' where "rng' = snd (shuffle [1, 2, 3, 4, 5, 6, 7, 8, 9] 0 rng)"
    have eq: "fill_grid s row col rng = try_numbers s row col nextRow nextCol numbers 0 rng'"
      using False b d
      by (simp add: fill_grid.simps [of s row col rng] Let_def split_def nextRow_def nextCol_def
          numbers_def rng'_def)
    have nxt: "nextRow * 9 + nextCol = row * 9 + col + 1"
      "(nextRow < 9 \<and> nextCol < 9) \<or> (nextRow = 9 \<and> nextCol = 0)"
      using b d by (auto simp: nextRow_def nextCol_def)
    from shuffle_props [of "[1, 2, 3, 4, 5, 6, 7, 8, 9]" 0 rng]
    have num: "length numbers = 9" "set numbers = {1, 2, 3, 4, 5, 6, 7, 8, 9}"
      by (simp_all add: numbers_def)
    then have rngn: "\<forall>x\<in>set numbers. 1 \<le> x \<and> x \<le> 9" by simp
    have sh: "(numbers, rng') = shuffle [1, 2, 3, 4, 5, 6, 7, 8, 9] 0 rng"
      by (simp add: numbers_def rng'_def)
    from False b d have c1: "row \<noteq> rows s" and c2: "row < rows s \<and> col < cols s"
      by simp_all
    note IH = "1.IH" [OF c1 nextRow_def nextCol_def refl sh c2 g cs fu b nxt num(1) rngn]
    from fu d cell_index [OF b] have e: "value_at s row col = V_None"
      by (simp add: value_at_def filled_upto_empty)
    have "completions s = {}" if nf: "\<not> fst (try_numbers s row col nextRow nextCol numbers 0 rng')"
    proof (rule no_completions [OF g b e])
      fix v :: nat assume "1 \<le> v" "v \<le> 9"
      then have "v \<in> set numbers" unfolding num(2) by auto
      then obtain j where "j < 9" "numbers ! j = v"
        using num(1) by (auto simp: in_set_conv_nth)
      with IH nf show "completions (set_value s (row * 9 + col) v) = {}" by auto
    qed
    with IH show ?thesis unfolding eq by simp
  qed
next
  case (2 s row col nextRow nextCol numbers i rng)
  note g = "2.prems"(1) and cs = "2.prems"(2) and fu = "2.prems"(3) and b = "2.prems"(4,5)
    and nxt = "2.prems"(6,7) and num = "2.prems"(8,9)
  from g have d: "rows s = 9" "cols s = 9" "length (grid s) = 81" by (simp_all add: grid9_def)
  note il = cell_index [OF b]
  from fu d il have ei: "cvalue (grid s ! (row * 9 + col)) = V_None"
    by (simp add: filled_upto_empty)
  then have e: "value_at s row col = V_None" using d by (simp add: value_at_def)
  show ?case
  proof (cases "i < 9")
    case False
    then show ?thesis
      by (auto simp: try_numbers.simps [of s row col nextRow nextCol numbers i rng]
          search_sound_def)
  next
    case i9: True
    define v where "v = numbers ! i"
    from i9 num have v: "1 \<le> v" "v \<le> 9" by (simp_all add: v_def)
    then have vnz: "v \<noteq> V_None" by simp
    have split: "\<And>j. (i \<le> j) = (j = i \<or> i + 1 \<le> j)" by auto
    show ?thesis
    proof (cases "is_valid s row col v")
      case False
      then have eq: "try_numbers s row col nextRow nextCol numbers i rng
          = try_numbers s row col nextRow nextCol numbers (i + 1) rng"
        using i9 by (simp add: try_numbers.simps [of s row col nextRow nextCol numbers i rng] v_def)
      from completions_invalid [OF g b e vnz False]
        "2.IH"(3) [OF i9 v_def False g cs fu b nxt num]
      show ?thesis unfolding eq by (auto simp: split v_def)
    next
      case ok: True
      let ?s1 = "set_value s (row * 9 + col) v"
      obtain filled cs1 rng1 where r: "fill_grid ?s1 nextRow nextCol rng = (filled, cs1, rng1)"
        by (cases "fill_grid ?s1 nextRow nextCol rng")
      have g1: "grid9 ?s1" using g by simp
      have c1: "consistent ?s1" using g cs b v ok by (rule consistent_set_value)
      have f1: "filled_upto ?s1 (nextRow * 9 + nextCol)"
        unfolding nxt(1) using fu vnz il d by (intro filled_upto_Suc) simp_all
      from "2.IH"(1) [OF i9 v_def ok, unfolded d, OF g1 c1 f1 nxt(2)] r
      have ih1: "search_sound ?s1 (filled, cs1, rng1)" "\<not> filled \<longrightarrow> completions ?s1 = {}"
        by simp_all
      show ?thesis
      proof (cases filled)
        case True
        then have eq: "try_numbers s row col nextRow nextCol numbers i rng = (True, cs1, rng1)"
          using i9 ok r d
          by (simp add: try_numbers.simps [of s row col nextRow nextCol numbers i rng] v_def [symmetric])
        from ih1(1) True show ?thesis unfolding eq by (simp add: search_sound_def)
      next
        case False
        with ih1 have cs1: "cs1 = grid ?s1" and none: "completions ?s1 = {}"
          by (simp_all add: search_sound_def)
        have undo: "set_value (s\<lparr>grid := cs1\<rparr>) (row * 9 + col) V_None = s"
        proof -
          have "s\<lparr>grid := cs1\<rparr> = ?s1" unfolding cs1 by (simp add: set_value_def)
          then show ?thesis using ei by (simp add: set_value_same)
        qed
        have eq: "try_numbers s row col nextRow nextCol numbers i rng
            = try_numbers s row col nextRow nextCol numbers (i + 1) rng1"
          using i9 ok r d False undo
          by (simp add: try_numbers.simps [of s row col nextRow nextCol numbers i rng] v_def [symmetric])
        from "2.IH"(2) [OF i9 v_def ok, unfolded d, OF r [symmetric] refl False, unfolded undo,
            OF g cs fu b nxt num] none
        show ?thesis unfolding eq by (auto simp: split v_def)
      qed
    qed
  qed
qed


lemma empty_grid_has_completion:
  assumes g: "grid9 s" and e: "list_all (\<lambda>c. cvalue c = V_None) (grid s)"
  shows "completions s \<noteq> {}"
proof -
  define t where "t = s\<lparr>grid := map2 (\<lambda>c v. c\<lparr>cvalue := v\<rparr>) (grid s) solved_values\<rparr>"
  have l: "length solved_values = 81" by (simp add: solved_values_def)
  from g have d: "rows s = 9" "cols s = 9" "length (grid s) = 81" by (simp_all add: grid9_def)
  have "map cvalue (grid t) = solved_values"
    by (rule nth_equalityI) (simp_all add: t_def d l)
  moreover have "map cvalue (grid solved_example) = solved_values"
    by (simp add: solved_example_def cells_of_def comp_def)
  ultimately have "same_values solved_example t"
    by (simp add: same_values_def solved_example_def t_def d)
  from same_values_solved [OF this solved_solved_example] have "solved t" .
  moreover have "fills s t"
    using e by (simp add: fills_def t_def list_all2_conv_all_nth d l list_all_length)
  ultimately show ?thesis by (auto simp: completions_def)
qed

lemma empty_grid_consistent:
  assumes g: "grid9 s" and e: "list_all (\<lambda>c. cvalue c = V_None) (grid s)"
  shows "consistent s"
proof -
  have "value_at s r c = V_None" if "r < 9" "c < 9" for r c
    using cell_index [OF that] g e by (simp add: value_at_def grid9_def list_all_length)
  then show ?thesis by (simp add: consistent_def)
qed


section \<open>The generator on the empty grid\<close>

lemma fill_grid_from_empty:
  assumes "grid9 s" and "list_all (\<lambda>c. cvalue c = V_None) (grid s)"
  shows "fst (fill_grid s 0 0 rng)" "solved (s\<lparr>grid := fst (snd (fill_grid s 0 0 rng))\<rparr>)"
proof -
  have fu: "filled_upto s (0 * 9 + 0)"
    using assms(2) by (simp add: filled_upto_def list_all_length)
  from fill_grid_search(1) [OF assms(1) empty_grid_consistent [OF assms] fu, of rng]
    empty_grid_has_completion [OF assms]
  show "fst (fill_grid s 0 0 rng)" "solved (s\<lparr>grid := fst (snd (fill_grid s 0 0 rng))\<rparr>)"
    by (auto simp: search_sound_def)
qed

section \<open>Carving: the loop of \<^verbatim>\<open>remove_cells\<close>\<close>

lemma live_addr:
  assumes "live h p"
  obtains a cs where "ref_grid p = Some a" "a < length h" "h ! a = Some cs" "cells h p = cs"
    "length cs = ref_rows p * ref_cols p"
  using assms by (auto simp: live_def cells_def split: option.splits)

lemma put_cell_live:
  assumes "live h p"
  shows "live (put_cell h p idx c) p"
    and "cells (put_cell h p idx c) p = (cells h p)[idx := c]"
    and "length (put_cell h p idx c) = length h"
    and "\<And>b. ref_grid p \<noteq> Some b \<Longrightarrow> put_cell h p idx c ! b = h ! b"
proof -
  from assms obtain a cs where a: "ref_grid p = Some a" "a < length h" "h ! a = Some cs"
    "cells h p = cs" "length cs = ref_rows p * ref_cols p"
    by (rule live_addr)
  then have eq: "put_cell h p idx c = h[a := Some (cs[idx := c])]"
    by (simp add: put_cell_def store_def)
  show "live (put_cell h p idx c) p" "cells (put_cell h p idx c) p = (cells h p)[idx := c]"
    "length (put_cell h p idx c) = length h"
    using a by (simp_all add: eq live_def cells_def)
  show "\<And>b. ref_grid p \<noteq> Some b \<Longrightarrow> put_cell h p idx c ! b = h ! b"
    using a by (simp add: eq)
qed

lemma append_None_live:
  assumes "live h p"
  shows "live (h @ [None]) p" and "cells (h @ [None]) p = cells h p"
    and "load (h @ [None]) p = load h p"
proof -
  from assms obtain a cs where a: "ref_grid p = Some a" "a < length h" "h ! a = Some cs"
    "cells h p = cs" "length cs = ref_rows p * ref_cols p"
    by (rule live_addr)
  show c: "cells (h @ [None]) p = cells h p" using a by (simp add: cells_def nth_append)
  show "live (h @ [None]) p" using a c by (simp add: live_def nth_append)
  show "load (h @ [None]) p = load h p" using c by (simp add: load_def)
qed

lemma has_unique_solution_eq:
  assumes "live h p"
  shows "has_unique_solution h p = (snd (count_solutions (load h p) 2) = 1, h @ [None])"
  using has_unique_solution_result [OF assms] has_unique_solution_heap [of h p]
  by (cases "has_unique_solution h p") simp

lemma empties_update:
  assumes "i < length cs"
  shows "length (filter (\<lambda>c. cvalue c = V_None) (cs[i := c']))
           + (if cvalue (cs ! i) = V_None then 1 else 0)
         = length (filter (\<lambda>c. cvalue c = V_None) cs) + (if cvalue c' = V_None then 1 else 0)"
  using assms by (rule filter_update_length)

text \<open>A probe that is kept.\<close>

lemma carve_keep:
  assumes inv: "carve_inv h0 p h removed" and d: "ref_rows p = 9" "ref_cols p = 9"
    and idx: "idx < 81" and nz: "cvalue (cells h p ! idx) \<noteq> V_None"
    and u: "snd (count_solutions (load (put_cell h p idx \<lparr>cvalue = V_None, ctype = DYNAMIC\<rparr>) p) 2) = 1"
  shows "carve_inv h0 p (put_cell h p idx \<lparr>cvalue = V_None, ctype = DYNAMIC\<rparr> @ [None])
           (removed + 1)"
proof -
  let ?c = "\<lparr>cvalue = V_None, ctype = DYNAMIC\<rparr>"
  let ?h1 = "put_cell h p idx ?c"
  from inv have lv: "live h p" by (simp add: carve_inv_def)
  note p1 = put_cell_live [OF lv, where idx = idx and c = ?c]
  note p2 = append_None_live [OF p1(1)]
  from lv d have len: "length (cells h p) = 81" by (auto elim: live_addr)
  have fr: "\<forall>b<length h0. ref_grid p \<noteq> Some b \<longrightarrow> (?h1 @ [None]) ! b = h0 ! b"
    using inv p1(3,4) by (simp add: carve_inv_def nth_append)
  have cs2: "cells (?h1 @ [None]) p = (cells h p)[idx := ?c]"
    by (simp add: p2(2) p1(2))
  have em: "int (empties (load (?h1 @ [None]) p)) = removed + 1"
  proof -
    from inv have "int (length (filter (\<lambda>c. cvalue c = V_None) (cells h p))) = removed"
      by (simp add: carve_inv_def empties_def load_def)
    with empties_update [of idx "cells h p" ?c] idx len nz show ?thesis
      by (simp add: empties_def load_def cs2)
  qed
  have vals: "list_all2 (\<lambda>c c0. cvalue c = V_None \<or> cvalue c = cvalue c0)
      (cells (?h1 @ [None]) p) (cells h0 p)"
    using inv idx len unfolding cs2 carve_inv_def
    by (auto simp: list_all2_conv_all_nth nth_list_update)
  from p2(1) inv p1(3) fr em u vals show ?thesis
    by (simp add: carve_inv_def p2(3))
qed

text \<open>A probe that is reverted: the values are those before the probe.\<close>

lemma carve_revert:
  assumes inv: "carve_inv h0 p h removed" and d: "ref_rows p = 9" "ref_cols p = 9"
    and idx: "idx < 81"
  shows "carve_inv h0 p
           (put_cell (put_cell h p idx \<lparr>cvalue = V_None, ctype = DYNAMIC\<rparr> @ [None]) p idx
              \<lparr>cvalue = cvalue (cells h p ! idx), ctype = FIXED\<rparr>)
           removed"
proof -
  let ?c = "\<lparr>cvalue = V_None, ctype = DYNAMIC\<rparr>"
  let ?c' = "\<lparr>cvalue = cvalue (cells h p ! idx), ctype = FIXED\<rparr>"
  let ?h1 = "put_cell h p idx ?c"
  let ?h3 = "put_cell (?h1 @ [None]) p idx ?c'"
  from inv have lv: "live h p" by (simp add: carve_inv_def)
  note p1 = put_cell_live [OF lv, where idx = idx and c = ?c]
  note p2 = append_None_live [OF p1(1)]
  note p3 = put_cell_live [OF p2(1), where idx = idx and c = ?c']
  from lv d have len: "length (cells h p) = 81" by (auto elim: live_addr)
  have cs3: "cells ?h3 p = (cells h p)[idx := ?c']"
    by (simp add: p3(2) p2(2) p1(2))
  have mv: "map cvalue (cells ?h3 p) = map cvalue (cells h p)"
    unfolding cs3 using idx len by (intro nth_equalityI) (simp_all add: nth_list_update)
  then have sv: "same_values (load h p) (load ?h3 p)"
    by (simp add: same_values_def load_def)
  have g: "grid9 (load h p)" using d len by (simp add: grid9_def load_def)
  have fr: "\<forall>b<length h0. ref_grid p \<noteq> Some b \<longrightarrow> ?h3 ! b = h0 ! b"
    using inv p1(3,4) p3(4) by (simp add: carve_inv_def nth_append)
  have em: "empties (load ?h3 p) = empties (load h p)"
  proof -
    have "filter (\<lambda>v. v = V_None) (map cvalue (cells ?h3 p))
        = filter (\<lambda>v. v = V_None) (map cvalue (cells h p))" by (simp only: mv)
    then have "map cvalue (filter (\<lambda>c. cvalue c = V_None) (cells ?h3 p))
        = map cvalue (filter (\<lambda>c. cvalue c = V_None) (cells h p))"
      by (simp add: filter_map comp_def)
    then show ?thesis by (metis empties_def load_def length_map Sudoku.select_convs(3))
  qed
  have nthv: "cvalue (cells ?h3 p ! i) = cvalue (cells h p ! i)" if "i < 81" for i
    using that len idx unfolding cs3 by (auto simp: nth_list_update)
  have len3: "length (cells ?h3 p) = 81" using len by (simp add: cs3)
  from inv have "list_all2 (\<lambda>c c0. cvalue c = V_None \<or> cvalue c = cvalue c0)
      (cells h p) (cells h0 p)" by (simp add: carve_inv_def)
  then have vals: "list_all2 (\<lambda>c c0. cvalue c = V_None \<or> cvalue c = cvalue c0)
      (cells ?h3 p) (cells h0 p)"
    using len len3 nthv by (simp add: list_all2_conv_all_nth)
  from p3(1,3) p1(3) inv fr em same_values_count(1) [OF sv g, of 2] vals show ?thesis
    by (simp add: carve_inv_def)
qed

lemma remove_cells_loop_inv:
  assumes "remove_cells_loop p count h removed rng = Some y"
    and "ref_rows p = 9" "ref_cols p = 9" "carve_inv h0 p h removed"
  shows "\<exists>r. carve_inv h0 p (fst y) r \<and> r = max removed count"
  using assms
proof (induction p count h removed rng y rule: remove_cells_loop.raw_induct [rotated 1, consumes 1])
  case (1 loop p count h removed rng y)
  note d = "1.prems"(1,2) and inv = "1.prems"(3)
  from inv have lv: "live h p" by (simp add: carve_inv_def)
  show ?case
  proof (cases "removed < count")
    case False
    with "1.hyps" have "y = (h, rng)" by simp
    with inv False show ?thesis by auto
  next
    case lt: True
    define row where "row = shd rng mod ref_rows p"
    define col where "col = shd (stl rng) mod ref_cols p"
    define rng2 where "rng2 = stl (stl rng)"
    define idx where "idx = row * ref_cols p + col"
    have idx: "idx < 81"
      using cell_index [of row col] d by (simp add: idx_def row_def col_def)
    let ?c = "\<lparr>cvalue = V_None, ctype = DYNAMIC\<rparr>"
    let ?h1 = "put_cell h p idx ?c"
    note hu = has_unique_solution_eq [OF put_cell_live(1) [OF lv, where idx = idx and c = ?c]]
    show ?thesis
    proof (cases "cvalue (cells h p ! idx) = V_None")
      case True
      with lt "1.hyps" have "loop p count h removed rng2 = Some y"
        by (simp add: Let_def row_def col_def rng2_def idx_def)
      from "1.IH" [OF this d inv] show ?thesis .
    next
      case nz: False
      show ?thesis
      proof (cases "snd (count_solutions (load ?h1 p) 2) = 1")
        case True
        with lt nz "1.hyps" hu
        have "loop p count (?h1 @ [None]) (removed + 1) rng2 = Some y"
          by (simp add: Let_def row_def col_def rng2_def idx_def)
        from "1.IH" [OF this d carve_keep [OF inv d idx nz True]] lt show ?thesis by auto
      next
        case False
        with lt nz "1.hyps" hu
        have "loop p count
            (put_cell (?h1 @ [None]) p idx \<lparr>cvalue = cvalue (cells h p ! idx), ctype = FIXED\<rparr>)
            removed rng2 = Some y"
          by (simp add: Let_def row_def col_def rng2_def idx_def)
        from "1.IH" [OF this d carve_revert [OF inv d idx]] show ?thesis .
      qed
    qed
  qed
qed

lemma set_types_loop_nth:
  "n \<le> length cs \<Longrightarrow>
     length (set_types_loop cs n i) = length cs \<and>
     (\<forall>j<length cs. set_types_loop cs n i ! j =
        (if i \<le> j \<and> j < n
         then (cs ! j)\<lparr>ctype := (if cvalue (cs ! j) = V_None then DYNAMIC else FIXED)\<rparr>
         else cs ! j))"
proof (induction cs n i rule: set_types_loop.induct)
  case (1 cs n i)
  show ?case
  proof (cases "i < n")
    case False
    then show ?thesis by (auto simp: set_types_loop.simps [of cs n i])
  next
    case True
    define cs' where "cs' = cs[i := (cs ! i)\<lparr>ctype := (if cvalue (cs ! i) = V_None then DYNAMIC else FIXED)\<rparr>]"
    have eq: "set_types_loop cs n i = set_types_loop cs' n (i + 1)"
      using True by (simp add: set_types_loop.simps [of cs n i] cs'_def)
    have l: "n \<le> length cs'" using "1.prems" by (simp add: cs'_def)
    have ih: "length (set_types_loop cs' n (i + 1)) = length cs' \<and>
      (\<forall>j<length cs'. set_types_loop cs' n (i + 1) ! j =
        (if i + 1 \<le> j \<and> j < n
         then (cs' ! j)\<lparr>ctype := (if cvalue (cs' ! j) = V_None then DYNAMIC else FIXED)\<rparr>
         else cs' ! j))"
    proof (cases "cvalue (cs ! i) = V_None")
      case e: True
      with "1.IH"(1) [OF True e] l show ?thesis by (simp add: cs'_def)
    next
      case e: False
      with "1.IH"(2) [OF True e] l show ?thesis by (simp add: cs'_def)
    qed
    from True "1.prems" have il: "i < length cs" by simp
    show ?thesis unfolding eq
    proof (intro conjI allI impI)
      show "length (set_types_loop cs' n (i + 1)) = length cs" using ih by (simp add: cs'_def)
      fix j assume j: "j < length cs"
      then have "j < length cs'" by (simp add: cs'_def)
      with ih have "set_types_loop cs' n (i + 1) ! j =
        (if i + 1 \<le> j \<and> j < n
         then (cs' ! j)\<lparr>ctype := (if cvalue (cs' ! j) = V_None then DYNAMIC else FIXED)\<rparr>
         else cs' ! j)" by blast
      also have "\<dots> = (if i \<le> j \<and> j < n
         then (cs ! j)\<lparr>ctype := (if cvalue (cs ! j) = V_None then DYNAMIC else FIXED)\<rparr>
         else cs ! j)"
        using il j True by (cases "j = i") (auto simp: cs'_def)
      finally show "set_types_loop cs' n (i + 1) ! j =
        (if i \<le> j \<and> j < n
         then (cs ! j)\<lparr>ctype := (if cvalue (cs ! j) = V_None then DYNAMIC else FIXED)\<rparr>
         else cs ! j)" .
    qed
  qed
qed

lemma set_types_loop_all:
  "set_types_loop cs (length cs) 0 =
     map (\<lambda>c. c\<lparr>ctype := (if cvalue c = V_None then DYNAMIC else FIXED)\<rparr>) cs"
  using set_types_loop_nth [of "length cs" cs 0] by (intro nth_equalityI) simp_all

lemma carve_inv_start:
  assumes lv: "live h p" and d: "ref_rows p = 9" "ref_cols p = 9"
    and full: "list_all (\<lambda>c. cvalue c \<noteq> V_None) (cells h p)"
  shows "carve_inv h p h 0"
proof -
  from lv d have len: "length (cells h p) = 81" by (auto elim: live_addr)
  then have g: "grid9 (load h p)" using d by (simp add: grid9_def load_def)
  have "filter (\<lambda>c. cvalue c = V_None) (cells h p) = []"
    using full by (simp add: filter_empty_conv list_all_iff)
  then have e: "empties (load h p) = 0" by (simp add: empties_def load_def)
  from full have "list_all (\<lambda>c. cvalue c \<noteq> V_None) (grid (load h p))" by (simp add: load_def)
  from count_solutions_full [OF g this, of 2] have c: "snd (count_solutions (load h p) 2) = 1"
    by simp
  have "list_all2 (\<lambda>c c0. cvalue c = V_None \<or> cvalue c = cvalue c0) (cells h p) (cells h p)"
    by (simp add: list_all2_conv_all_nth)
  with lv e c show ?thesis by (simp add: carve_inv_def)
qed

lemma store_live:
  assumes "ref_grid p = Some a" "a < length h" "h ! a \<noteq> None"
  shows "store h p cs = h[a := Some cs]"
  using assms by (simp add: store_def)

lemma remove_cells_result:
  assumes rc: "remove_cells h p ref count rng = Some (h', rng')"
    and lv: "live h p" and d: "ref_rows p = 9" "ref_cols p = 9"
    and full: "list_all (\<lambda>c. cvalue c \<noteq> V_None) (cells h p)"
  shows "live h' p"
    and "snd (count_solutions (load h' p) 2) = 1"
    and "int (empties (load h' p)) = max 0 count"
    and "list_all2 (\<lambda>c c0. ctype c = (if cvalue c = V_None then DYNAMIC else FIXED) \<and>
            (cvalue c = V_None \<or> cvalue c = cvalue c0)) (cells h' p) (cells h p)"
    and "length h \<le> length h'"
    and "\<And>b. b < length h \<Longrightarrow> ref_grid p \<noteq> Some b \<Longrightarrow> h' ! b = h ! b"
proof -
  from rc obtain h1 where lp: "remove_cells_loop p count h 0 rng = Some (h1, rng')"
    and h': "h' = store h1 p (set_types_loop (cells h1 p) (ref_rows p * ref_cols p) 0)"
    by (auto simp: remove_cells_def split: option.splits)
  from remove_cells_loop_inv [OF lp d carve_inv_start [OF lv d full]]
  obtain r where inv: "carve_inv h p h1 r" and r: "r = max 0 count" by auto
  from inv have lv1: "live h1 p" by (simp add: carve_inv_def)
  from lv1 obtain a cs where a: "ref_grid p = Some a" "a < length h1" "h1 ! a = Some cs"
    "cells h1 p = cs" "length cs = ref_rows p * ref_cols p"
    by (rule live_addr)
  let ?f = "\<lambda>c. c\<lparr>ctype := (if cvalue c = V_None then DYNAMIC else FIXED)\<rparr>"
  have eq: "h' = h1[a := Some (map ?f cs)]"
    unfolding h' a(4) a(5) [symmetric] set_types_loop_all using a by (simp add: store_live)
  have cs': "cells h' p = map ?f cs"
    using a by (simp add: eq cells_def)
  show "live h' p" using a by (simp add: eq live_def cells_def)
  have mv: "map cvalue (cells h' p) = map cvalue (cells h1 p)"
    by (simp add: cs' a(4) comp_def)
  then have sv: "same_values (load h1 p) (load h' p)" by (simp add: same_values_def load_def)
  have g: "grid9 (load h1 p)" using a d by (simp add: grid9_def load_def)
  from same_values_count(1) [OF sv g, of 2] inv
  show "snd (count_solutions (load h' p) 2) = 1" by (simp add: carve_inv_def)
  have "empties (load h' p) = empties (load h1 p)"
  proof -
    have "filter (\<lambda>c. cvalue c = V_None) (map ?f cs) = map ?f (filter (\<lambda>c. cvalue c = V_None) cs)"
      by (simp add: filter_map comp_def)
    then show ?thesis by (simp add: empties_def load_def cs' a(4))
  qed
  with inv r show "int (empties (load h' p)) = max 0 count"
    by (simp add: carve_inv_def)
  from inv have "list_all2 (\<lambda>c c0. cvalue c = V_None \<or> cvalue c = cvalue c0) cs (cells h p)"
    by (simp add: carve_inv_def a(4))
  then show "list_all2 (\<lambda>c c0. ctype c = (if cvalue c = V_None then DYNAMIC else FIXED) \<and>
      (cvalue c = V_None \<or> cvalue c = cvalue c0)) (cells h' p) (cells h p)"
    unfolding cs' by (simp add: list_all2_conv_all_nth)
  from inv show "length h \<le> length h'" by (simp add: eq carve_inv_def)
  fix b assume "b < length h" "ref_grid p \<noteq> Some b"
  with inv a(1) show "h' ! b = h ! b" by (simp add: eq carve_inv_def)
qed

section \<open>The steps of \<^verbatim>\<open>generate_new_game\<close>\<close>

lemma block9_live: "block9 h p a cs \<Longrightarrow> live h p \<and> cells h p = cs"
  by (simp add: block9_def live_def cells_def)

lemma live_block9:
  "live h p \<Longrightarrow> ref_rows p = 9 \<Longrightarrow> ref_cols p = 9 \<Longrightarrow> \<exists>a. block9 h p a (cells h p)"
  by (auto simp: block9_def elim!: live_addr)

lemma grid_fill_loop_nth:
  "n \<le> length cs \<Longrightarrow>
     length (grid_fill_loop cs n val ty i) = length cs \<and>
     (\<forall>j<length cs. grid_fill_loop cs n val ty i ! j =
        (if i \<le> j \<and> j < n then \<lparr>cvalue = val, ctype = ty\<rparr> else cs ! j))"
proof (induction cs n val ty i rule: grid_fill_loop.induct)
  case (1 cs n val ty i)
  show ?case
  proof (cases "i < n")
    case False
    then show ?thesis by (auto simp: grid_fill_loop.simps [of cs n val ty i])
  next
    case True
    define cs' where "cs' = cs[i := (cs ! i)\<lparr>cvalue := val, ctype := ty\<rparr>]"
    have eq: "grid_fill_loop cs n val ty i = grid_fill_loop cs' n val ty (i + 1)"
      using True by (simp add: grid_fill_loop.simps [of cs n val ty i] cs'_def)
    from "1.IH" [OF True] "1.prems"
    have ih: "length (grid_fill_loop cs' n val ty (i + 1)) = length cs'"
      "\<And>j. j < length cs' \<Longrightarrow> grid_fill_loop cs' n val ty (i + 1) ! j =
        (if i + 1 \<le> j \<and> j < n then \<lparr>cvalue = val, ctype = ty\<rparr> else cs' ! j)"
      by (simp_all add: cs'_def)
    from True "1.prems" have il: "i < length cs" by simp
    show ?thesis unfolding eq
    proof (intro conjI allI impI)
      show "length (grid_fill_loop cs' n val ty (i + 1)) = length cs"
        using ih(1) by (simp add: cs'_def)
      fix j assume j: "j < length cs"
      then have "j < length cs'" by (simp add: cs'_def)
      from ih(2) [OF this] il j True
      show "grid_fill_loop cs' n val ty (i + 1) ! j =
        (if i \<le> j \<and> j < n then \<lparr>cvalue = val, ctype = ty\<rparr> else cs ! j)"
        by (cases "j = i") (auto simp: cs'_def)
    qed
  qed
qed

lemma grid_fill_loop_all:
  "grid_fill_loop cs (length cs) val ty 0 = replicate (length cs) \<lparr>cvalue = val, ctype = ty\<rparr>"
  using grid_fill_loop_nth [of "length cs" cs val ty 0] by (intro nth_equalityI) simp_all

text \<open>The global grid after the test for \<^verbatim>\<open>NULL\<close> and the \<^verbatim>\<open>memcpy\<close> of the solution.\<close>

lemma ensure_and_copy:
  assumes ok: "ref_ok h p" and len: "length cs = 81"
  defines "q \<equiv> (if ref_grid p = None then fst (game_open h 9 9) else p)"
    and "h1 \<equiv> (if ref_grid p = None then snd (game_open h 9 9) else h)"
  assumes src: "ref_grid t = Some b" "b < length h" "h ! b = Some cs" "ref_grid p \<noteq> Some b"
  defines "h2 \<equiv> memcpy h1 q t 81"
  shows "\<exists>a. block9 h2 q a cs \<and> a \<noteq> b \<and> length h \<le> length h2 \<and>
             (\<forall>c. c < length h \<longrightarrow> c \<noteq> a \<longrightarrow> h2 ! c = h ! c) \<and>
             (ref_grid p = None \<longrightarrow> a = length h) \<and> (ref_grid p \<noteq> None \<longrightarrow> q = p)"
proof (cases "ref_grid p = None")
  case True
  let ?z = "replicate (9 * 9) \<lparr>cvalue = V_None, ctype = FIXED\<rparr>"
  have q: "q = \<lparr>ref_rows = 9, ref_cols = 9, ref_grid = Some (length h)\<rparr>"
    and h1: "h1 = h @ [Some ?z]"
    using True by (simp_all add: q_def h1_def game_open_def)
  have ct: "cells h1 t = cs" using src by (simp add: h1 cells_def nth_append)
  have cq: "cells h1 q = ?z" by (simp add: h1 q cells_def)
  have "h2 = h @ [Some cs]"
    unfolding h2_def memcpy_def ct cq using len by (simp add: h1 q store_def)
  with src len True show ?thesis
    by (intro exI [of _ "length h"]) (auto simp: block9_def q nth_append)
next
  case False
  with ok have lv: "live h p" and d: "ref_rows p = 9" "ref_cols p = 9"
    by (simp_all add: ref_ok_def)
  from live_block9 [OF lv d] obtain a where a: "block9 h p a (cells h p)" by blast
  have q: "q = p" and h1: "h1 = h" using False by (auto simp: q_def h1_def)
  have ct: "cells h t = cs" using src by (simp add: cells_def)
  have "h2 = h[a := Some cs]"
    unfolding h2_def memcpy_def h1 q ct using a len
    by (simp add: block9_def store_def)
  with a src len False show ?thesis
    by (intro exI [of _ a]) (auto simp: block9_def q)
qed

lemma live_preserved:
  assumes "live h p" "ref_grid p = Some a" "a < length h'" "h' ! a = h ! a"
  shows "live h' p" "cells h' p = cells h p"
proof -
  from assms(1,2) have "a < length h" by (auto elim: live_addr)
  with assms show "cells h' p = cells h p" by (simp add: cells_def)
  with assms show "live h' p" by (simp add: live_def)
qed

lemma generate_new_game_steps:
  assumes ok: "globals_ok g h"
  shows "\<exists>he qp qs cs rng1 pa sa.
      (\<forall>n. generate_new_game g h n rng =
         (case remove_cells he qp qs n rng1 of
            None \<Rightarrow> None
          | Some (hf, r) \<Rightarrow>
              Some (g\<lparr>solution_grid := qs, current_puzzle_grid := qp\<rparr>,
                    game_close hf \<lparr>ref_rows = 9, ref_cols = 9, ref_grid = Some (length h)\<rparr>, r))) \<and>
      solved \<lparr>rows = 9, cols = 9, grid = cs\<rparr> \<and> block9 he qp pa cs \<and> block9 he qs sa cs \<and>
      pa \<noteq> sa \<and> pa \<noteq> length h \<and> sa \<noteq> length h \<and> length h < length he"
proof -
  define t where "t = \<lparr>ref_rows = 9, ref_cols = 9, ref_grid = Some (length h)\<rparr>"
  define E where "E = replicate 81 \<lparr>cvalue = V_None, ctype = DYNAMIC\<rparr>"
  define s0 where "s0 = \<lparr>rows = 9, cols = 9, grid = E\<rparr>"
  define cs where "cs = fst (snd (fill_grid s0 0 0 rng))"
  define rng1 where "rng1 = snd (snd (fill_grid s0 0 0 rng))"
  define hc where "hc = h @ [Some cs]"
  define ps where "ps = solution_grid g"
  define pp where "pp = current_puzzle_grid g"
  define qs where "qs = (if ref_grid ps = None then fst (game_open hc 9 9) else ps)"
  define hs where "hs = (if ref_grid ps = None then snd (game_open hc 9 9) else hc)"
  define hd where "hd = memcpy hs qs t 81"
  define qp where "qp = (if ref_grid pp = None then fst (game_open hd 9 9) else pp)"
  define hp where "hp = (if ref_grid pp = None then snd (game_open hd 9 9) else hd)"
  define he where "he = memcpy hp qp t 81"
  have tg: "ref_grid t = Some (length h)" by (simp add: t_def)
  \<comment> \<open>the temporary grid: opened, emptied, filled\<close>
  have go: "game_open h 9 9 = (t, h @ [Some (replicate 81 \<lparr>cvalue = V_None, ctype = FIXED\<rparr>)])"
    by (simp add: game_open_def t_def)
  have gf: "grid_fill (h @ [Some (replicate 81 \<lparr>cvalue = V_None, ctype = FIXED\<rparr>)]) t V_None DYNAMIC
      = h @ [Some E]"
  proof -
    let ?Z = "replicate 81 \<lparr>cvalue = V_None, ctype = FIXED\<rparr>"
    have d: "ref_rows t * ref_cols t = 81" by (simp add: t_def)
    have "grid_fill_loop ?Z 81 V_None DYNAMIC 0 = E"
      using grid_fill_loop_all [of ?Z V_None DYNAMIC] by (simp add: E_def)
    then show ?thesis
      unfolding grid_fill_def cells_fresh [OF tg] d by (simp only: store_fresh [OF tg])
  qed
  have ld: "load (h @ [Some E]) t = s0"
    by (simp add: load_def cells_fresh [OF tg] s0_def) (simp add: t_def)
  have st: "store (h @ [Some E]) t cs = hc"
    by (simp add: store_fresh [OF tg] hc_def)
  have g0: "grid9 s0" "list_all (\<lambda>c. cvalue c = V_None) (grid s0)"
    by (simp_all add: s0_def E_def grid9_def list_all_length)
  from fill_grid_from_empty(2) [OF g0, of rng]
  have sol: "solved \<lparr>rows = 9, cols = 9, grid = cs\<rparr>" by (simp add: cs_def s0_def)
  then have len: "length cs = 81" by (simp add: solved_def grid9_def)
  from sol have full: "list_all (\<lambda>c. cvalue c \<noteq> V_None) cs" by (simp add: solved_def)
  \<comment> \<open>the function, step by step\<close>
  have steps: "generate_new_game g h n rng =
      (case remove_cells he qp qs n rng1 of
         None \<Rightarrow> None
       | Some (hf, r) \<Rightarrow>
           Some (g\<lparr>solution_grid := qs, current_puzzle_grid := qp\<rparr>, game_close hf t, r))" for n
    by (cases "ref_grid (solution_grid g)"; cases "ref_grid (current_puzzle_grid g)")
      (simp_all add: generate_new_game_def go gf ld st Let_def split_def he_def hp_def qp_def
        hd_def hs_def qs_def ps_def pp_def cs_def [symmetric] rng1_def [symmetric]
        cong: option.case_cong)
  \<comment> \<open>the solution grid\<close>
  from ok have oks: "ref_ok h ps" and okp: "ref_ok h pp"
    and ne: "ref_grid pp = None \<or> ref_grid pp \<noteq> ref_grid ps"
    by (simp_all add: globals_ok_def ps_def pp_def)
  have below: "a < length h" if "ref_ok h p" "ref_grid p = Some a" for p a
    using that by (auto simp: ref_ok_def elim: live_addr)
  have lift: "ref_ok H p" if "ref_ok h p" "length h \<le> length H"
    "\<And>a. ref_grid p = Some a \<Longrightarrow> H ! a = h ! a" for p H
  proof (cases "ref_grid p")
    case None
    then show ?thesis by (simp add: ref_ok_def)
  next
    case (Some a)
    with that(1) have lv: "live h p" and d: "ref_rows p = 9" "ref_cols p = 9"
      by (simp_all add: ref_ok_def)
    from below [OF that(1) Some] that(2) have "a < length H" by simp
    from live_preserved(1) [OF lv Some this that(3) [OF Some]] d show ?thesis
      by (simp add: ref_ok_def)
  qed
  have oks': "ref_ok hc ps"
    using below [OF oks] by (intro lift [OF oks]) (simp_all add: hc_def nth_append)
  have srcs: "length h < length hc" "hc ! length h = Some cs" "ref_grid ps \<noteq> Some (length h)"
    using below [OF oks] by (auto simp: hc_def)
  from ensure_and_copy [OF oks' len tg srcs, folded qs_def hs_def, folded hd_def]
  obtain sa where all_s: "block9 hd qs sa cs \<and> sa \<noteq> length h \<and> length hc \<le> length hd \<and>
      (\<forall>c. c < length hc \<longrightarrow> c \<noteq> sa \<longrightarrow> hd ! c = hc ! c) \<and>
      (ref_grid ps = None \<longrightarrow> sa = length hc) \<and> (ref_grid ps \<noteq> None \<longrightarrow> qs = ps)" ..
  then have bs: "block9 hd qs sa cs" and as_t: "sa \<noteq> length h"
    and ls: "length hc \<le> length hd"
    and as_new: "ref_grid ps = None \<longrightarrow> sa = length hc"
    and as_old: "ref_grid ps \<noteq> None \<longrightarrow> qs = ps"
    by simp_all
  from all_s have frs: "\<And>c. c < length hc \<Longrightarrow> c \<noteq> sa \<Longrightarrow> hd ! c = hc ! c"
    by simp
  \<comment> \<open>the puzzle grid\<close>
  have pp_as: "ref_grid pp \<noteq> Some sa"
  proof (cases "ref_grid ps = None")
    case True
    with as_new below [OF okp] show ?thesis by (auto simp: hc_def)
  next
    case False
    with as_old bs have "ref_grid ps = Some sa" by (simp add: block9_def)
    with ne show ?thesis by auto
  qed
  have okp': "ref_ok hd pp"
  proof (rule lift [OF okp])
    show "length h \<le> length hd" using ls by (simp add: hc_def)
    fix a assume a: "ref_grid pp = Some a"
    with pp_as have "a \<noteq> sa" by auto
    with frs [of a] below [OF okp a] show "hd ! a = h ! a" by (simp add: hc_def nth_append)
  qed
  have srcp: "length h < length hd" "hd ! length h = Some cs" "ref_grid pp \<noteq> Some (length h)"
    using ls srcs frs [of "length h"] as_t below [OF okp] by auto
  from ensure_and_copy [OF okp' len tg srcp, folded qp_def hp_def, folded he_def]
  obtain pa where all_p: "block9 he qp pa cs \<and> pa \<noteq> length h \<and> length hd \<le> length he \<and>
      (\<forall>c. c < length hd \<longrightarrow> c \<noteq> pa \<longrightarrow> he ! c = hd ! c) \<and>
      (ref_grid pp = None \<longrightarrow> pa = length hd) \<and> (ref_grid pp \<noteq> None \<longrightarrow> qp = pp)" ..
  then have bp: "block9 he qp pa cs" and ap_t: "pa \<noteq> length h"
    and lp: "length hd \<le> length he"
    and ap_new: "ref_grid pp = None \<longrightarrow> pa = length hd"
    and ap_old: "ref_grid pp \<noteq> None \<longrightarrow> qp = pp"
    by simp_all
  from all_p have frp: "\<And>c. c < length hd \<Longrightarrow> c \<noteq> pa \<Longrightarrow> he ! c = hd ! c"
    by simp
  have ap_as: "pa \<noteq> sa"
  proof (cases "ref_grid pp = None")
    case True
    with ap_new bs show ?thesis by (auto simp: block9_def)
  next
    case False
    with ap_old bp have "ref_grid pp = Some pa" by (simp add: block9_def)
    with pp_as show ?thesis by auto
  qed
  from bs frp [of sa] ap_as lp have bs': "sa < length he" "he ! sa = Some cs"
    "ref_grid qs = Some sa"
    by (auto simp: block9_def)
  from bs bs' have bs'': "block9 he qs sa cs" by (simp add: block9_def)
  from srcp(1) lp have "length h < length he" by simp
  with steps sol bp bs'' ap_as ap_t as_t show ?thesis
    unfolding t_def by blast
qed

lemma generate_new_game_result:
  assumes ok: "globals_ok g h" and gen: "generate_new_game g h n rng = Some (g', h', rng')"
  shows "\<exists>sol. solved \<lparr>rows = 9, cols = 9, grid = sol\<rparr> \<and> globals_ok g' h' \<and>
           cells h' (solution_grid g') = sol \<and>
           ref_rows (current_puzzle_grid g') = 9 \<and> ref_cols (current_puzzle_grid g') = 9 \<and>
           live h' (current_puzzle_grid g') \<and>
           snd (count_solutions (load h' (current_puzzle_grid g')) 2) = 1 \<and>
           int (empties (load h' (current_puzzle_grid g'))) = max 0 n \<and>
           list_all2 (\<lambda>c c0. ctype c = (if cvalue c = V_None then DYNAMIC else FIXED) \<and>
              (cvalue c = V_None \<or> cvalue c = cvalue c0)) (cells h' (current_puzzle_grid g')) sol"
proof -
  define t where "t = \<lparr>ref_rows = 9, ref_cols = 9, ref_grid = Some (length h)\<rparr>"
  from generate_new_game_steps [OF ok, of rng, folded t_def]
  obtain he qp qs cs rng1 pa sa where
    steps: "\<And>n. generate_new_game g h n rng =
         (case remove_cells he qp qs n rng1 of
            None \<Rightarrow> None
          | Some (hf, r) \<Rightarrow>
              Some (g\<lparr>solution_grid := qs, current_puzzle_grid := qp\<rparr>, game_close hf t, r))"
    and sol: "solved \<lparr>rows = 9, cols = 9, grid = cs\<rparr>"
    and bp: "block9 he qp pa cs" and bs: "block9 he qs sa cs"
    and ap_as: "pa \<noteq> sa" and ap_t: "pa \<noteq> length h" and as_t: "sa \<noteq> length h"
    and lh: "length h < length he"
    by blast
  from sol have full: "list_all (\<lambda>c. cvalue c \<noteq> V_None) cs" by (simp add: solved_def)
  from bs have bs': "sa < length he" "he ! sa = Some cs" "ref_grid qs = Some sa"
    by (simp_all add: block9_def)
  from gen obtain hf where rc: "remove_cells he qp qs n rng1 = Some (hf, rng')"
    and g': "g' = g\<lparr>solution_grid := qs, current_puzzle_grid := qp\<rparr>"
    and h': "h' = game_close hf t"
    unfolding steps by (auto split: option.splits)
  note lb = block9_live [OF bp]
  from bp have d: "ref_rows qp = 9" "ref_cols qp = 9" and rp: "ref_grid qp = Some pa"
    by (simp_all add: block9_def)
  from lb full have fullp: "list_all (\<lambda>c. cvalue c \<noteq> V_None) (cells he qp)" by simp
  note res = remove_cells_result [OF rc conjunct1 [OF lb] d fullp]
  have cf: "h' = hf[length h := None]" by (simp add: h' game_close_def t_def)
  from bp lh res(5) have lt: "length h < length hf" "pa < length hf"
    by (auto simp: block9_def)
  have lvp: "live h' qp" "cells h' qp = cells hf qp"
    using live_preserved [OF res(1) rp, of h'] lt ap_t by (simp_all add: cf)
  then have ldp: "load h' qp = load hf qp" by (simp add: load_def)
  from res(6) [of sa] bs' rp ap_as have "hf ! sa = Some cs" by simp
  with bs' res(5) as_t have cq: "cells h' qs = cs"
    by (simp add: cells_def cf)
  from bs cq bs' res(5) as_t \<open>hf ! sa = Some cs\<close> have "live h' qs"
    by (simp add: live_def block9_def cf)
  with bs lvp(1) d rp bs'(3) ap_as have gok: "globals_ok g' h'"
    by (simp add: globals_ok_def ref_ok_def g' block9_def)
  from sol gok cq d lvp res(2,3,4) lb show ?thesis
    by (intro exI [of _ cs]) (simp add: g' ldp)
qed

text \<open>
  The state in which \<open>generate_new_game\<close> may be called holds when the program starts
  and is kept by every call that returns.
\<close>

lemma generate_new_game_globals_ok:
  assumes "globals_ok g h" and "generate_new_game g h n rng = Some (g', h', rng')"
  shows "globals_ok g' h'"
  using generate_new_game_result [OF assms] by blast

lemma remove_cells_loop_exit:
  "\<not> removed < count \<Longrightarrow> remove_cells_loop p count h removed rng = Some (h, rng)"
  by (subst remove_cells_loop.simps) simp

lemma remove_cells_loop_keep:
  assumes "removed < count" and lv: "live h p"
    and idx_def: "idx = (shd rng mod ref_rows p) * ref_cols p + shd (stl rng) mod ref_cols p"
    and nz: "cvalue (cells h p ! idx) \<noteq> V_None"
    and u: "snd (count_solutions (load (put_cell h p idx \<lparr>cvalue = V_None, ctype = DYNAMIC\<rparr>) p) 2) = 1"
  shows "remove_cells_loop p count h removed rng =
           remove_cells_loop p count (put_cell h p idx \<lparr>cvalue = V_None, ctype = DYNAMIC\<rparr> @ [None])
             (removed + 1) (stl (stl rng))"
  using assms(1) nz u
    has_unique_solution_eq [OF put_cell_live(1) [OF lv, where idx = idx and c = "\<lparr>cvalue = V_None, ctype = DYNAMIC\<rparr>"]]
  by (subst remove_cells_loop.simps) (simp add: Let_def idx_def [symmetric])

text \<open>A solved grid with one cell emptied has one completion.\<close>

lemma one_removed_unique:
  assumes st: "solved s" and idx: "idx < 81"
  shows "snd (count_solutions (s\<lparr>grid := (grid s)[idx := \<lparr>cvalue = V_None, ctype = ty\<rparr>]\<rparr>) 2) = 1"
proof -
  define s' where "s' = s\<lparr>grid := (grid s)[idx := \<lparr>cvalue = V_None, ctype = ty\<rparr>]\<rparr>"
  define t where "t = s\<lparr>grid := (grid s)[idx := (grid s ! idx)\<lparr>ctype := ty\<rparr>]\<rparr>"
  define r where "r = idx div 9"
  define c where "c = idx mod 9"
  have rc: "r < 9" "c < 9" "idx = r * 9 + c" using idx by (simp_all add: r_def c_def)
  note g = solved_units(1) [OF st]
  then have d: "rows s = 9" "cols s = 9" "length (grid s) = 81" by (simp_all add: grid9_def)
  have g': "grid9 s'" using g by (simp add: s'_def grid9_def)
  have "same_values s t"
    unfolding same_values_def t_def using idx d
    by (auto intro!: nth_equalityI simp: nth_list_update)
  from same_values_solved [OF this st] have tt: "solved t" .
  have ft: "fills s' t"
    using idx d by (auto simp: fills_def s'_def t_def list_all2_conv_all_nth nth_list_update)
  note cs = completion_consistent [OF g' ft tt]
  have va': "value_at s' r' c' = value_at s r' c'" if "r' < 9" "c' < 9" "(r', c') \<noteq> (r, c)" for r' c'
    using that cell_index_inj [of c' c r' r] rc d cell_index [OF that(1,2)]
    by (auto simp: value_at_def s'_def nth_list_update)
  have uniq: "u = t" if u: "u \<in> completions s'" for u
  proof -
    from u have fu: "fills s' u" and su: "solved u" by (simp_all add: completions_def)
    note gu = solved_units(1) [OF su]
    have agree: "value_at u r' c' = value_at s r' c'"
      if b: "r' < 9" "c' < 9" "(r', c') \<noteq> (r, c)" for r' c'
    proof -
      from solved_value_range [OF st b(1,2)] va' [OF b] have "value_at s' r' c' \<noteq> V_None" by simp
      from fills_value_at [OF fu g' b(1,2) this] va' [OF b] show ?thesis by simp
    qed
    have at: "value_at u r c = value_at s r c"
    proof -
      from solved_units(2) [OF su rc(1)] solved_units(2) [OF st rc(1)]
      have pu: "distinct (row_values u r)" and "set (row_values u r) = set (row_values s r)"
        by (simp_all add: permutation_1_9_def)
      moreover have "value_at u r c \<in> set (row_values u r)"
        using rc(2) by (metis row_values_nth length_row_values nth_mem)
      ultimately obtain k where k: "k < 9" "row_values s r ! k = value_at u r c"
        by (metis in_set_conv_nth length_row_values)
      have "k = c"
      proof (rule ccontr)
        assume "k \<noteq> c"
        with agree [OF rc(1) k(1)] k have "row_values u r ! k = row_values u r ! c"
          using rc(2) by (simp add: row_values_nth)
        with pu k(1) rc(2) \<open>k \<noteq> c\<close> show False by (simp add: nth_eq_iff_index_eq)
      qed
      with k rc(2) show ?thesis by (simp add: row_values_nth)
    qed
    have all: "value_at u r' c' = value_at s r' c'" if "r' < 9" "c' < 9" for r' c'
      using that agree at by (cases "(r', c') = (r, c)") auto
    have "grid u = grid t"
    proof (rule nth_equalityI)
      show "length (grid u) = length (grid t)" using gu d by (simp add: grid9_def t_def)
    next
      fix i assume "i < length (grid u)"
      with gu have i: "i < 81" by (simp add: grid9_def)
      then have i9: "i div 9 < 9" "i mod 9 < 9" by simp_all
      from all [OF i9] value_at_nth [OF gu i] value_at_nth [OF g i]
      have v: "cvalue (grid u ! i) = cvalue (grid s ! i)" by simp
      from fills_nth(2) [OF fu, of i] i d
      have ty: "ctype (grid u ! i) = ctype (grid s' ! i)" by (simp add: s'_def)
      from v ty i idx d show "grid u ! i = grid t ! i"
        by (cases "i = idx") (simp_all add: s'_def t_def)
    qed
    with gu d show ?thesis
      by (intro Sudoku.equality) (simp_all add: grid9_def t_def)
  qed
  from ft tt have "t \<in> completions s'" by (simp add: completions_def)
  with uniq have "\<exists>!u. u \<in> completions s'" by blast
  with count_solutions_limit_2 [OF g' cs] show ?thesis by (simp add: s'_def)
qed

lemma remove_cells_loop_one:
  assumes lv: "live h p" and d: "ref_rows p = 9" "ref_cols p = 9" and st: "solved (load h p)"
  shows "\<exists>y. remove_cells_loop p 1 h 0 rng = Some y"
proof -
  define idx where "idx = (shd rng mod ref_rows p) * ref_cols p + shd (stl rng) mod ref_cols p"
  have idx: "idx < 81"
    using cell_index [of "shd rng mod 9" "shd (stl rng) mod 9"] by (simp add: idx_def d)
  let ?c = "\<lparr>cvalue = V_None, ctype = DYNAMIC\<rparr>"
  from st idx have nz: "cvalue (cells h p ! idx) \<noteq> V_None"
    by (simp add: solved_def grid9_def load_def list_all_length)
  have "load (put_cell h p idx ?c) p = (load h p)\<lparr>grid := (grid (load h p))[idx := ?c]\<rparr>"
    by (simp add: load_def put_cell_live(2) [OF lv])
  with one_removed_unique [OF st idx, of DYNAMIC]
  have u: "snd (count_solutions (load (put_cell h p idx ?c) p) 2) = 1" by simp
  have "(0::int) < 1" by simp
  from remove_cells_loop_keep [OF this lv idx_def nz u]
  show ?thesis
    by (simp add: remove_cells_loop_exit)
qed

lemma remove_cells_one:
  assumes "live h p" "ref_rows p = 9" "ref_cols p = 9" "solved (load h p)"
  shows "\<exists>y. remove_cells h p ref 1 rng = Some y"
  using remove_cells_loop_one [OF assms, of rng] by (auto simp: remove_cells_def)

lemma generate_new_game_one:
  assumes ok: "globals_ok g h"
  shows "\<exists>y. generate_new_game g h 1 rng = Some y"
proof -
  from generate_new_game_steps [OF ok, of rng]
  obtain he qp qs cs rng1 pa sa where
    steps: "\<And>n. generate_new_game g h n rng =
         (case remove_cells he qp qs n rng1 of
            None \<Rightarrow> None
          | Some (hf, r) \<Rightarrow>
              Some (g\<lparr>solution_grid := qs, current_puzzle_grid := qp\<rparr>,
                    game_close hf \<lparr>ref_rows = 9, ref_cols = 9, ref_grid = Some (length h)\<rparr>, r))"
    and sol: "solved \<lparr>rows = 9, cols = 9, grid = cs\<rparr>"
    and bp: "block9 he qp pa cs"
    by blast
  from bp have d: "ref_rows qp = 9" "ref_cols qp = 9" by (simp_all add: block9_def)
  note lb = block9_live [OF bp]
  from sol lb d have "solved (load he qp)" by (simp add: load_def)
  from remove_cells_one [OF conjunct1 [OF lb] d this, of qs rng1]
  show ?thesis unfolding steps by auto
qed

lemma initial_globals_ok: "globals_ok initial_globals []"
  by (simp add: globals_ok_def initial_globals_def null_ref_def ref_ok_def)

lemma first_ref_solved:
  "live solved_heap first_ref" "ref_rows first_ref = 9" "ref_cols first_ref = 9"
  "load solved_heap first_ref = solved_example"
  "cells solved_heap first_ref = grid solved_example"
  using grid9_solved_example
  by (simp_all add: live_def solved_heap_def first_ref_def cells_def load_def grid9_def
      solved_example_def)

section \<open>Claims about the constraint checker\<close>

text \<open>
  C4. For every 9x9 grid, every \<open>row\<close> and \<open>col\<close> below 9 and every value,
  \<open>is_valid\<close> returns false if and only if the value occurs in row \<open>row\<close> at a column
  other than \<open>col\<close>, or in column \<open>col\<close> at a row other than \<open>row\<close>, or in the 3x3 box with
  origin \<open>(3 * (row div 3), 3 * (col div 3))\<close> at a position other than \<open>(row, col)\<close>; so
  it returns true when the only occurrence of the value is the target cell itself. The
  function takes the grid and returns a truth value only: the grid is not changed.
\<close>

theorem is_valid_false_iff:
  assumes "grid9 s" and "row < 9" and "col < 9"
  shows "is_valid s row col val = False \<longleftrightarrow>
           (\<exists>x<9. x \<noteq> col \<and> value_at s row x = val) \<or>
           (\<exists>y<9. y \<noteq> row \<and> value_at s y col = val) \<or>
           (\<exists>r<3. \<exists>c<3. (3 * (row div 3) + r, 3 * (col div 3) + c) \<noteq> (row, col) \<and>
               value_at s (3 * (row div 3) + r) (3 * (col div 3) + c) = val)"
proof -
  have swap: "\<And>n::nat. n div 3 * 3 = 3 * (n div 3)" by simp
  from assms(1) show ?thesis
    unfolding is_valid_scan grid9_def swap by auto
qed

theorem is_valid_false_iff_witness:
  "grid9 solved_example \<and> (0::nat) < 9 \<and> is_valid solved_example 0 0 2 = False"
proof -
  have g: "grid9 solved_example"
    by (simp add: grid9_def solved_example_def cells_of_def solved_values_def)
  have "value_at solved_example 0 1 = 2"
    by (simp add: value_at_def solved_example_def cells_of_def solved_values_def)
  then have "\<exists>x<9. x \<noteq> 0 \<and> value_at solved_example 0 x = 2"
    by (intro exI [of _ 1]) simp
  with is_valid_false_iff [of solved_example 0 0 2] g show ?thesis by simp
qed

text \<open>
  C10. \<open>is_valid\<close> treats the empty marker like any other value: for a 9x9 grid and a
  cell \<open>(row, col)\<close> inside it, \<open>is_valid\<close> with \<^verbatim>\<open>V_None\<close> returns false whenever a
  position other than \<open>(row, col)\<close> in the same row, column or 3x3 box is empty.
\<close>

theorem is_valid_V_None_false:
  assumes "grid9 s" and "row < 9" and "col < 9"
    and "(\<exists>x<9. x \<noteq> col \<and> value_at s row x = V_None) \<or>
         (\<exists>y<9. y \<noteq> row \<and> value_at s y col = V_None) \<or>
         (\<exists>r<3. \<exists>c<3. (3 * (row div 3) + r, 3 * (col div 3) + c) \<noteq> (row, col) \<and>
             value_at s (3 * (row div 3) + r) (3 * (col div 3) + c) = V_None)"
  shows "is_valid s row col V_None = False"
proof -
  have swap: "\<And>n::nat. n div 3 * 3 = 3 * (n div 3)" by simp
  from assms(1,4) show ?thesis
    unfolding is_valid_scan grid9_def swap by auto
qed

theorem is_valid_V_None_false_witness:
  "grid9 three_solutions_example \<and> value_at three_solutions_example 0 5 = V_None \<and>
   is_valid three_solutions_example 0 2 V_None = False"
proof -
  have g: "grid9 three_solutions_example"
    by (simp add: grid9_def three_solutions_example_def cells_of_def three_solutions_values_def)
  have e: "value_at three_solutions_example 0 5 = V_None"
    by (simp add: value_at_def three_solutions_example_def cells_of_def
        three_solutions_values_def)
  then have "\<exists>x<9. x \<noteq> 2 \<and> value_at three_solutions_example 0 x = V_None"
    by (intro exI [of _ 5]) simp
  with is_valid_V_None_false [of three_solutions_example 0 2] g e show ?thesis by simp
qed

section \<open>Claims about the solution counter\<close>

text \<open>
  C8. \<open>count_solutions\<close> leaves its grid as it found it: for every grid and every limit,
  the grid at the return equals the grid at entry, since every placement is reverted
  before the function returns.
\<close>

theorem count_solutions_round_trip: "fst (count_solutions s limit) = s"
  by (rule count_solutions_frame_dom(1)) (rule count_solutions_total(1))

lemma three_solutions_count: "snd (count_solutions three_solutions_example 2) = 3"
  by code_simp

lemma grid9_three_solutions_example: "grid9 three_solutions_example"
  by (simp add: grid9_def three_solutions_example_def cells_of_def three_solutions_values_def)

text \<open>
  C9. The value returned by \<open>count_solutions\<close> is not capped at the limit: there is a 9x9
  grid on which \<open>count_solutions\<close> with limit 2 returns more than 2. (On the grid above the
  first candidate of the first empty cell leads to one solution and the second to two;
  the running total 3 is returned as it is.)
\<close>

theorem count_solutions_not_capped: "\<exists>s. grid9 s \<and> snd (count_solutions s 2) > 2"
proof (intro exI conjI)
  show "grid9 three_solutions_example" by (rule grid9_three_solutions_example)
  show "snd (count_solutions three_solutions_example 2) > 2"
    by (simp add: three_solutions_count)
qed

text \<open>
  C2 (as amended). On every 9x9 grid without an empty cell \<open>count_solutions\<close> returns 1.
  On every 9x9 grid whose filled cells hold values from 1 to 9 with no value repeated in
  a row, a column or a box, \<open>count_solutions\<close> with limit 2 returns 0 exactly when the
  grid has no valid completion, 1 exactly when it has one, and at least 2 exactly when it
  has two or more; and \<open>has_unique_solution\<close> on a store that holds this grid answers
  true exactly when the grid has one valid completion.
\<close>

theorem count_solutions_oracle:
  assumes "grid9 s"
  shows "(list_all (\<lambda>c. cvalue c \<noteq> V_None) (grid s) \<longrightarrow> snd (count_solutions s limit) = 1) \<and>
         (consistent s \<longrightarrow>
            (snd (count_solutions s 2) = 0 \<longleftrightarrow> completions s = {}) \<and>
            (snd (count_solutions s 2) = 1 \<longleftrightarrow> (\<exists>!t. t \<in> completions s)) \<and>
            (snd (count_solutions s 2) \<ge> 2 \<longleftrightarrow>
               (\<exists>t u. t \<in> completions s \<and> u \<in> completions s \<and> t \<noteq> u)) \<and>
            (live h p \<and> load h p = s \<longrightarrow>
               (fst (has_unique_solution h p) \<longleftrightarrow> (\<exists>!t. t \<in> completions s))))"
proof (intro conjI impI)
  assume "list_all (\<lambda>c. cvalue c \<noteq> V_None) (grid s)"
  from count_solutions_full [OF assms this] show "snd (count_solutions s limit) = 1" by simp
next
  assume cs: "consistent s"
  note l = count_solutions_limit_2 [OF assms cs]
  from l show "(snd (count_solutions s 2) = 0) = (completions s = {})" by blast
  from l show "(snd (count_solutions s 2) = 1) = (\<exists>!t. t \<in> completions s)" by blast
  from l show "(2 \<le> snd (count_solutions s 2)) =
      (\<exists>t u. t \<in> completions s \<and> u \<in> completions s \<and> t \<noteq> u)" by blast
  assume "live h p \<and> load h p = s"
  with has_unique_solution_result [of h p] l
  show "fst (has_unique_solution h p) = (\<exists>!t. t \<in> completions s)" by blast
qed


theorem count_solutions_oracle_witness:
  "grid9 solved_example \<and> snd (count_solutions solved_example 2) = 1 \<and>
   grid9 three_solutions_example \<and> consistent three_solutions_example \<and>
   (\<exists>t u. t \<in> completions three_solutions_example \<and> u \<in> completions three_solutions_example
      \<and> t \<noteq> u) \<and>
   \<not> fst (has_unique_solution [Some (grid three_solutions_example)]
           \<lparr>ref_rows = 9, ref_cols = 9, ref_grid = Some 0\<rparr>)"
proof -
  let ?h = "[Some (grid three_solutions_example)]"
  let ?p = "\<lparr>ref_rows = 9, ref_cols = 9, ref_grid = Some 0\<rparr>"
  have full: "list_all (\<lambda>c. cvalue c \<noteq> V_None) (grid solved_example)"
    using solved_solved_example by (simp add: solved_def)
  note g = grid9_three_solutions_example
  have cs: "consistent three_solutions_example"
    using g fills_three_solutions_example solved_solved_example by (rule completion_consistent)
  have lv: "live ?h ?p"
    using g by (simp add: live_def cells_def grid9_def)
  have ld: "load ?h ?p = three_solutions_example"
    by (simp add: load_def cells_def three_solutions_example_def)
  from count_solutions_oracle [OF grid9_solved_example, of 2] full
  have one: "snd (count_solutions solved_example 2) = 1" by simp
  from count_solutions_oracle [OF g, of 2 ?h ?p] cs lv ld three_solutions_count
  have two: "\<exists>t u. t \<in> completions three_solutions_example \<and>
      u \<in> completions three_solutions_example \<and> t \<noteq> u"
    and nu: "\<not> fst (has_unique_solution ?h ?p)"
    by simp_all
  from grid9_solved_example one g cs two nu show ?thesis by simp
qed


text \<open>
  The claim as stated, for every grid, fails: the counter never checks the cells that are
  already filled against one another. On the grid below, which has no empty cell and two
  2s in its first row, it returns 1, and the grid has no valid completion.
\<close>

theorem count_solutions_oracle_counterexample:
  "grid9 conflict_example \<and> snd (count_solutions conflict_example 2) = 1 \<and>
   completions conflict_example = {}"
proof -
  have "completions conflict_example = {}"
    using conflict_example_facts(2)
    by (auto simp: completions_def fills_full [OF conflict_example_facts(1)])
  with grid9_conflict_example count_conflict_example show ?thesis by simp
qed

section \<open>Claim about the solution generator\<close>

text \<open>
  C3. For every random sequence, \<open>fill_grid\<close> called at row 0, column 0 on an all-empty
  9x9 grid returns true, and on return every cell is nonzero and every row, every column
  and every 3x3 box is a permutation of 1..9.
\<close>

theorem fill_grid_complete:
  assumes "grid9 s" and "list_all (\<lambda>c. cvalue c = V_None) (grid s)"
  shows "fst (fill_grid s 0 0 rng) = True \<and>
         solved (s\<lparr>grid := fst (snd (fill_grid s 0 0 rng))\<rparr>)"
  using fill_grid_from_empty [OF assms, of rng] by simp

theorem fill_grid_complete_witness:
  "grid9 empty_example \<and> list_all (\<lambda>c. cvalue c = V_None) (grid empty_example) \<and>
   fst (fill_grid empty_example 0 0 (sconst 7)) = True \<and>
   solved (empty_example\<lparr>grid := fst (snd (fill_grid empty_example 0 0 (sconst 7)))\<rparr>)"
proof -
  have g: "grid9 empty_example" by (simp add: grid9_def empty_example_def)
  have e: "list_all (\<lambda>c. cvalue c = V_None) (grid empty_example)"
    by (simp add: empty_example_def list_all_length)
  from fill_grid_complete [OF g e, of "sconst 7"] g e show ?thesis by simp
qed

section \<open>Claim about \<^verbatim>\<open>has_unique_solution\<close> and the caller's grid\<close>

text \<open>
  C7. \<open>has_unique_solution\<close> does not change the caller's grid: the counter runs on the
  block that \<open>game_open\<close> has just appended to the store, and after the call the cells
  of the caller's grid, and every block that existed before the call, are what they were.
\<close>

theorem has_unique_solution_frame:
  "cells (snd (has_unique_solution h sudoku_ptr)) sudoku_ptr = cells h sudoku_ptr \<and>
   take (length h) (snd (has_unique_solution h sudoku_ptr)) = h"
  by (auto simp: has_unique_solution_heap cells_def nth_append split: option.splits)

section \<open>Claims about \<^verbatim>\<open>remove_cells\<close> and \<^verbatim>\<open>generate_new_game\<close>\<close>

text \<open>
  A grid obtained from a solved grid by emptying some of its cells is conflict-free, and
  the solved grid, with the types of the carved one, is one of its completions. So when
  the counter answers 1 on it, it has exactly one completion.
\<close>

lemma carved_unique:
  assumes len: "length cs = 81"
    and sol: "solved \<lparr>rows = 9, cols = 9, grid = sol\<rparr>"
    and rel: "list_all2 (\<lambda>c c0. cvalue c = V_None \<or> cvalue c = cvalue c0) cs sol"
    and one: "snd (count_solutions \<lparr>rows = 9, cols = 9, grid = cs\<rparr> 2) = 1"
  shows "\<exists>!t. t \<in> completions \<lparr>rows = 9, cols = 9, grid = cs\<rparr>"
proof -
  let ?s = "\<lparr>rows = 9, cols = 9, grid = cs\<rparr>"
  define t where "t = \<lparr>rows = 9, cols = 9, grid = map2 (\<lambda>c c0. c\<lparr>cvalue := cvalue c0\<rparr>) cs sol\<rparr>"
  have g: "grid9 ?s" using len by (simp add: grid9_def)
  from rel have l: "length sol = length cs" by (simp add: list_all2_lengthD)
  have "map cvalue sol = map cvalue (grid t)"
    by (rule nth_equalityI) (simp_all add: t_def l)
  then have "same_values \<lparr>rows = 9, cols = 9, grid = sol\<rparr> t"
    by (simp add: same_values_def t_def)
  from same_values_solved [OF this sol] have st: "solved t" .
  have "fills ?s t"
    using rel l by (auto simp: fills_def t_def list_all2_conv_all_nth)
  from completion_consistent [OF g this st] have "consistent ?s" .
  from count_solutions_limit_2 [OF g this] one show ?thesis by simp
qed

text \<open>
  C1. The grid that \<open>remove_cells\<close> leaves, when it returns on a grid that started as a
  complete valid solution, has exactly one completion: exactly one solved grid agrees
  with it on its filled cells, and \<open>count_solutions\<close> with limit 2 returns 1 on it. The
  same holds for the puzzle grid of every game that \<open>generate_new_game\<close> produces.
\<close>

theorem puzzle_unique:
  "(live h p \<and> ref_rows p = 9 \<and> ref_cols p = 9 \<and> solved (load h p) \<and>
    remove_cells h p ref count rng = Some (h', rng')
      \<longrightarrow> snd (count_solutions (load h' p) 2) = 1 \<and>
          (\<exists>!t. t \<in> completions (load h' p))) \<and>
   (globals_ok g h0 \<and> generate_new_game g h0 cells_to_remove rng0 = Some (g', h1, rng1)
      \<longrightarrow> snd (count_solutions (load h1 (current_puzzle_grid g')) 2) = 1 \<and>
          (\<exists>!t. t \<in> completions (load h1 (current_puzzle_grid g'))))"
proof (intro conjI impI)
  assume a: "live h p \<and> ref_rows p = 9 \<and> ref_cols p = 9 \<and> solved (load h p) \<and>
    remove_cells h p ref count rng = Some (h', rng')"
  then have lv: "live h p" and d: "ref_rows p = 9" "ref_cols p = 9"
    and sol0: "solved (load h p)"
    and rc: "remove_cells h p ref count rng = Some (h', rng')"
    by simp_all
  from sol0 d have sol: "solved \<lparr>rows = 9, cols = 9, grid = cells h p\<rparr>"
    by (simp add: load_def)
  from sol have full: "list_all (\<lambda>c. cvalue c \<noteq> V_None) (cells h p)"
    by (simp add: solved_def)
  note res = remove_cells_result [OF rc lv d full]
  from res(2) show one: "snd (count_solutions (load h' p) 2) = 1" .
  from res(1) d have len: "length (cells h' p) = 81" by (auto elim: live_addr)
  from res(4) have rel: "list_all2 (\<lambda>c c0. cvalue c = V_None \<or> cvalue c = cvalue c0)
      (cells h' p) (cells h p)"
    by (rule list_all2_mono) simp
  have ld: "load h' p = \<lparr>rows = 9, cols = 9, grid = cells h' p\<rparr>" using d by (simp add: load_def)
  from carved_unique [OF len sol rel one [unfolded ld]]
  show "\<exists>!t. t \<in> completions (load h' p)" unfolding ld .
next
  let ?q = "current_puzzle_grid g'"
  assume "globals_ok g h0 \<and> generate_new_game g h0 cells_to_remove rng0 = Some (g', h1, rng1)"
  with generate_new_game_result [of g h0 cells_to_remove rng0 g' h1 rng1]
  obtain sol where sol: "solved \<lparr>rows = 9, cols = 9, grid = sol\<rparr>"
    and d: "ref_rows ?q = 9" "ref_cols ?q = 9" and lv: "live h1 ?q"
    and one: "snd (count_solutions (load h1 ?q) 2) = 1"
    and rel0: "list_all2 (\<lambda>c c0. ctype c = (if cvalue c = V_None then DYNAMIC else FIXED) \<and>
              (cvalue c = V_None \<or> cvalue c = cvalue c0)) (cells h1 ?q) sol"
    by blast
  from one show "snd (count_solutions (load h1 ?q) 2) = 1" .
  from lv d have len: "length (cells h1 ?q) = 81" by (auto elim: live_addr)
  from rel0 have rel: "list_all2 (\<lambda>c c0. cvalue c = V_None \<or> cvalue c = cvalue c0)
      (cells h1 ?q) sol"
    by (rule list_all2_mono) simp
  have ld: "load h1 ?q = \<lparr>rows = 9, cols = 9, grid = cells h1 ?q\<rparr>" using d by (simp add: load_def)
  from carved_unique [OF len sol rel one [unfolded ld]]
  show "\<exists>!t. t \<in> completions (load h1 ?q)" unfolding ld .
qed

theorem puzzle_unique_witness:
  "(\<exists>h' rng'. remove_cells solved_heap first_ref first_ref 1 (sconst 0) = Some (h', rng') \<and>
      snd (count_solutions (load h' first_ref) 2) = 1 \<and>
      (\<exists>!t. t \<in> completions (load h' first_ref))) \<and>
   (\<exists>g' h1 rng1. generate_new_game initial_globals [] 1 (sconst 0) = Some (g', h1, rng1) \<and>
      snd (count_solutions (load h1 (current_puzzle_grid g')) 2) = 1 \<and>
      (\<exists>!t. t \<in> completions (load h1 (current_puzzle_grid g'))))"
proof (intro conjI)
  from remove_cells_one [OF first_ref_solved(1,2,3), of first_ref "sconst 0"]
    solved_solved_example first_ref_solved(4)
  obtain h' rng' where r: "remove_cells solved_heap first_ref first_ref 1 (sconst 0) = Some (h', rng')"
    by auto
  with puzzle_unique [of solved_heap first_ref first_ref 1 "sconst 0" h' rng']
    first_ref_solved solved_solved_example
  show "\<exists>h' rng'. remove_cells solved_heap first_ref first_ref 1 (sconst 0) = Some (h', rng') \<and>
      snd (count_solutions (load h' first_ref) 2) = 1 \<and>
      (\<exists>!t. t \<in> completions (load h' first_ref))" by simp
next
  from generate_new_game_one [OF initial_globals_ok, of "sconst 0"]
  obtain g' h1 rng1 where "generate_new_game initial_globals [] 1 (sconst 0) = Some (g', h1, rng1)"
    by auto
  with puzzle_unique [of _ _ _ _ _ _ _ initial_globals "[]" 1 "sconst 0" g' h1 rng1]
    initial_globals_ok
  show "\<exists>g' h1 rng1. generate_new_game initial_globals [] 1 (sconst 0) = Some (g', h1, rng1) \<and>
      snd (count_solutions (load h1 (current_puzzle_grid g')) 2) = 1 \<and>
      (\<exists>!t. t \<in> completions (load h1 (current_puzzle_grid g')))"
    by simp
qed

text \<open>
  C5. Whenever \<open>remove_cells\<close> returns, on a grid that started without empty cells and
  for a count that is a number of cells (not negative), the number of empty cells of the
  grid is the count; so the puzzle of \<open>generate_new_game\<close> has \<open>cells_to_remove\<close> empty
  cells and \<open>81 - cells_to_remove\<close> filled ones (35 and 46 for the easy level).
\<close>

theorem removal_count:
  "(live h p \<and> ref_rows p = 9 \<and> ref_cols p = 9 \<and>
    list_all (\<lambda>c. cvalue c \<noteq> V_None) (cells h p) \<and> 0 \<le> count \<and>
    remove_cells h p ref count rng = Some (h', rng')
      \<longrightarrow> int (empties (load h' p)) = count) \<and>
   (globals_ok g h0 \<and> 0 \<le> cells_to_remove \<and>
    generate_new_game g h0 cells_to_remove rng0 = Some (g', h1, rng1)
      \<longrightarrow> int (empties (load h1 (current_puzzle_grid g'))) = cells_to_remove \<and>
          int (length (filter (\<lambda>c. cvalue c \<noteq> V_None) (cells h1 (current_puzzle_grid g'))))
            = 81 - cells_to_remove)"
proof (intro conjI impI)
  assume a: "live h p \<and> ref_rows p = 9 \<and> ref_cols p = 9 \<and>
    list_all (\<lambda>c. cvalue c \<noteq> V_None) (cells h p) \<and> 0 \<le> count \<and>
    remove_cells h p ref count rng = Some (h', rng')"
  with remove_cells_result(3) [of h p ref count rng h' rng']
  show "int (empties (load h' p)) = count" by simp
next
  assume a: "globals_ok g h0 \<and> 0 \<le> cells_to_remove \<and>
    generate_new_game g h0 cells_to_remove rng0 = Some (g', h1, rng1)"
  let ?P = "cells h1 (current_puzzle_grid g')"
  from a generate_new_game_result [of g h0 cells_to_remove rng0 g' h1 rng1]
  have e0: "int (empties (load h1 (current_puzzle_grid g'))) = max 0 cells_to_remove"
    and lv: "live h1 (current_puzzle_grid g')"
    and d: "ref_rows (current_puzzle_grid g') = 9" "ref_cols (current_puzzle_grid g') = 9"
    by blast+
  with a have e: "int (empties (load h1 (current_puzzle_grid g'))) = cells_to_remove" by simp
  show "int (empties (load h1 (current_puzzle_grid g'))) = cells_to_remove" by (rule e)
  from lv d have len: "length ?P = 81" by (auto elim: live_addr)
  have "length (filter (\<lambda>c. cvalue c \<noteq> V_None) ?P) + length (filter (\<lambda>c. cvalue c = V_None) ?P)
      = length ?P"
    using sum_length_filter_compl [of "\<lambda>c. cvalue c \<noteq> V_None" ?P] by simp
  with e len show "int (length (filter (\<lambda>c. cvalue c \<noteq> V_None) ?P)) = 81 - cells_to_remove"
    by (simp add: empties_def load_def)
qed

theorem removal_count_witness:
  "(\<exists>h' rng'. remove_cells solved_heap first_ref first_ref 1 (sconst 0) = Some (h', rng') \<and>
      int (empties (load h' first_ref)) = 1) \<and>
   (\<exists>g' h1 rng1. generate_new_game initial_globals [] 1 (sconst 0) = Some (g', h1, rng1) \<and>
      int (empties (load h1 (current_puzzle_grid g'))) = 1 \<and>
      int (length (filter (\<lambda>c. cvalue c \<noteq> V_None) (cells h1 (current_puzzle_grid g')))) = 80)"
proof (intro conjI)
  have full: "list_all (\<lambda>c. cvalue c \<noteq> V_None) (cells solved_heap first_ref)"
    using solved_solved_example by (simp add: solved_def first_ref_solved(5))
  from remove_cells_one [OF first_ref_solved(1,2,3), of first_ref "sconst 0"]
    solved_solved_example first_ref_solved(4)
  obtain h' rng' where r: "remove_cells solved_heap first_ref first_ref 1 (sconst 0) = Some (h', rng')"
    by auto
  with removal_count [of solved_heap first_ref 1 first_ref "sconst 0" h' rng'] first_ref_solved(1-4) full
  show "\<exists>h' rng'. remove_cells solved_heap first_ref first_ref 1 (sconst 0) = Some (h', rng') \<and>
      int (empties (load h' first_ref)) = 1" by simp
next
  from generate_new_game_one [OF initial_globals_ok, of "sconst 0"]
  obtain g' h1 rng1 where "generate_new_game initial_globals [] 1 (sconst 0) = Some (g', h1, rng1)"
    by auto
  with removal_count [of _ _ _ _ _ _ _ initial_globals "[]" 1 "sconst 0" g' h1 rng1]
    initial_globals_ok
  show "\<exists>g' h1 rng1. generate_new_game initial_globals [] 1 (sconst 0) = Some (g', h1, rng1) \<and>
      int (empties (load h1 (current_puzzle_grid g'))) = 1 \<and>
      int (length (filter (\<lambda>c. cvalue c \<noteq> V_None) (cells h1 (current_puzzle_grid g')))) = 80"
    by simp
qed

text \<open>
  C6. After \<open>generate_new_game\<close> has returned, every cell of the puzzle grid that holds
  0 has type \<open>DYNAMIC\<close>, and every cell that holds another value has type \<open>FIXED\<close> and
  holds the value of the solution grid at the same index.
\<close>

theorem classification_consistent:
  assumes "globals_ok g h0"
    and "generate_new_game g h0 cells_to_remove rng0 = Some (g', h1, rng1)"
    and "i < 81"
  shows "(cvalue (cells h1 (current_puzzle_grid g') ! i) = V_None \<longrightarrow>
            ctype (cells h1 (current_puzzle_grid g') ! i) = DYNAMIC) \<and>
         (cvalue (cells h1 (current_puzzle_grid g') ! i) \<noteq> V_None \<longrightarrow>
            ctype (cells h1 (current_puzzle_grid g') ! i) = FIXED \<and>
            cvalue (cells h1 (current_puzzle_grid g') ! i)
              = cvalue (cells h1 (solution_grid g') ! i))"
proof -
  let ?P = "cells h1 (current_puzzle_grid g')"
  from generate_new_game_result [OF assms(1,2)]
  have lv: "live h1 (current_puzzle_grid g')"
    and d: "ref_rows (current_puzzle_grid g') = 9" "ref_cols (current_puzzle_grid g') = 9"
    and rel: "list_all2 (\<lambda>c c0. ctype c = (if cvalue c = V_None then DYNAMIC else FIXED) \<and>
              (cvalue c = V_None \<or> cvalue c = cvalue c0)) ?P (cells h1 (solution_grid g'))"
    by blast+
  from lv d have "length ?P = 81" by (auto elim: live_addr)
  with rel assms(3) show ?thesis
    by (auto simp: list_all2_conv_all_nth)
qed

theorem classification_consistent_witness:
  "\<exists>g' h1 rng1. generate_new_game initial_globals [] 1 (sconst 0) = Some (g', h1, rng1) \<and>
     (cvalue (cells h1 (current_puzzle_grid g') ! 0) = V_None \<longrightarrow>
        ctype (cells h1 (current_puzzle_grid g') ! 0) = DYNAMIC) \<and>
     (cvalue (cells h1 (current_puzzle_grid g') ! 0) \<noteq> V_None \<longrightarrow>
        ctype (cells h1 (current_puzzle_grid g') ! 0) = FIXED \<and>
        cvalue (cells h1 (current_puzzle_grid g') ! 0) = cvalue (cells h1 (solution_grid g') ! 0))"
proof -
  from generate_new_game_one [OF initial_globals_ok, of "sconst 0"]
  obtain g' h1 rng1 where r: "generate_new_game initial_globals [] 1 (sconst 0) = Some (g', h1, rng1)"
    by auto
  from classification_consistent [OF initial_globals_ok r, of 0] r show ?thesis by simp
qed

end
